theory Spec2Isabelle
  imports Complex_Main "HOL-Library.Word" "HOL-Library.AList"
begin

section \<open>Values, errors and wire structures\<close>

text \<open>
  The package \<^verbatim>\<open>mpvipc\<close> talks to the mpv media player over a socket: one JSON
  object per line in each direction. This theory embeds \<^verbatim>\<open>mpvipc.go\<close>: the
  \<^verbatim>\<open>Connection\<close> struct with its two tables and counters, every method that the
  properties below concern, the two dispatch functions of the reader goroutine and the
  reader loop itself.

  Go's \<^verbatim>\<open>uint\<close> is taken at 64 bits; \<^verbatim>\<open>c.lastRequest++\<close> is \<open>+ 1\<close> on
  \<^typ>\<open>64 word\<close> and wraps. A Go \<^verbatim>\<open>string\<close> or \<^verbatim>\<open>[]byte\<close> is a
  \<^typ>\<open>string\<close>, one \<^typ>\<open>char\<close> per byte.
\<close>

type_synonym uint = "64 word"

text \<open>
  A value of type \<^verbatim>\<open>interface{}\<close>. \<^verbatim>\<open>encoding/json\<close> decodes into
  \<^verbatim>\<open>nil\<close>, \<^verbatim>\<open>bool\<close>, \<^verbatim>\<open>float64\<close>, \<^verbatim>\<open>string\<close>,
  \<^verbatim>\<open>[]interface{}\<close> and \<^verbatim>\<open>map[string]interface{}\<close>; callers also pass
  integers as command arguments. A \<^verbatim>\<open>float64\<close> is carried as the exact decimal
  value of its literal (rounding to binary64 is not applied; a literal such as
  \<^verbatim>\<open>3.5\<close> is exact in both). A Go map has no order; \<open>VMap\<close> lists each key once.
\<close>

datatype go_value = VNil | VBool bool | VInt int | VFloat64 rat | VString string
  | VSlice "go_value list" | VMap "(string \<times> go_value) list"

text \<open>An \<^verbatim>\<open>error\<close> value made by \<^verbatim>\<open>fmt.Errorf\<close>, identified by its message.\<close>

datatype error = Errorf (message: string)

record commandRequest =
  Arguments :: "go_value list"
  ID :: uint

record CommandResult =
  Status :: string
  Data :: go_value
  ID :: uint

record Event =
  Name :: string
  Reason :: string
  Prefix :: string
  Level :: string
  Text :: string
  ID :: uint
  Data :: go_value
  Error :: string

text \<open>The zero values \<^verbatim>\<open>CommandResult{}\<close> and \<^verbatim>\<open>Event{}\<close>.\<close>

definition zeroCommandResult :: CommandResult where
  "zeroCommandResult = \<lparr>Status = [], CommandResult.Data = VNil, CommandResult.ID = 0\<rparr>"

definition zeroEvent :: Event where
  "zeroEvent = \<lparr>Name = [], Reason = [], Prefix = [], Level = [], Text = [],
                  Event.ID = 0, Event.Data = VNil, Error = []\<rparr>"

section \<open>Decoding a line: \<^verbatim>\<open>json.Unmarshal\<close>\<close>

text \<open>
  \<^verbatim>\<open>checkResult\<close> and \<^verbatim>\<open>checkEvent\<close> hand each line to
  \<^verbatim>\<open>json.Unmarshal\<close> of the Go standard library. Its behaviour on the two target
  structs is spelled out here so that dispatch can be evaluated on concrete lines: the
  JSON grammar (RFC 8259, as Go's scanner accepts it, with its nesting limit), string
  unquoting with escapes and UTF-8 repair, and the storing of members into struct fields
  (case-folded key match, \<^verbatim>\<open>null\<close> leaving a string or number field unchanged, a
  type mismatch or an out-of-range number making the whole call return an error).
\<close>

subsection \<open>Bytes and strings\<close>

datatype json = JNull | JBool bool | JNumber string | JString string
  | JArray "json list" | JObject "(string \<times> json) list"

datatype token = TLBrace | TRBrace | TLBracket | TRBracket | TColon | TComma | TScalar json

definition byte :: "char \<Rightarrow> int" where
  "byte c = of_char c"

definition isSpace :: "char \<Rightarrow> bool" where
  "isSpace c = (byte c = 0x20 \<or> byte c = 0x09 \<or> byte c = 0x0D \<or> byte c = 0x0A)"

definition isDigit :: "char \<Rightarrow> bool" where
  "isDigit c = (0x30 \<le> byte c \<and> byte c \<le> 0x39)"

definition isHex :: "char \<Rightarrow> bool" where
  "isHex c = (isDigit c \<or> (0x61 \<le> byte c \<and> byte c \<le> 0x66) \<or> (0x41 \<le> byte c \<and> byte c \<le> 0x46))"

definition hexVal :: "char \<Rightarrow> int" where
  "hexVal c = (if isDigit c then byte c - 0x30
               else if 0x61 \<le> byte c then byte c - 0x61 + 10 else byte c - 0x41 + 10)"

text \<open>\<^verbatim>\<open>getu4\<close>: the code unit of a four-digit hexadecimal escape at the head of the input.\<close>

fun getu4 :: "string \<Rightarrow> int option" where
  "getu4 (b # u # h1 # h2 # h3 # h4 # rest) =
     (if b = CHR 0x5C \<and> u = CHR ''u'' \<and> isHex h1 \<and> isHex h2 \<and> isHex h3 \<and> isHex h4
      then Some (((hexVal h1 * 16 + hexVal h2) * 16 + hexVal h3) * 16 + hexVal h4)
      else None)"
| "getu4 _ = None"

text \<open>\<^verbatim>\<open>utf8.EncodeRune\<close>; a surrogate or a value above U+10FFFF becomes U+FFFD.\<close>

definition encodeRune :: "int \<Rightarrow> string" where
  "encodeRune r =
     (if r < 0x80 then [char_of r]
      else if r < 0x800 then [char_of (0xC0 + r div 64), char_of (0x80 + r mod 64)]
      else if (0xD800 \<le> r \<and> r < 0xE000) \<or> 0x10FFFF < r then [CHR 0xEF, CHR 0xBF, CHR 0xBD]
      else if r < 0x10000 then
        [char_of (0xE0 + r div 4096), char_of (0x80 + (r div 64) mod 64), char_of (0x80 + r mod 64)]
      else
        [char_of (0xF0 + r div 262144), char_of (0x80 + (r div 4096) mod 64),
         char_of (0x80 + (r div 64) mod 64), char_of (0x80 + r mod 64)])"

definition continuation :: "char \<Rightarrow> bool" where
  "continuation c = (0x80 \<le> byte c \<and> byte c \<le> 0xBF)"

text \<open>
  The width that \<^verbatim>\<open>utf8.DecodeRune\<close> reports for a well-formed sequence at the head
  of the input, and \<open>0\<close> where it reports \<^verbatim>\<open>RuneError\<close>.
\<close>

fun runeLen :: "string \<Rightarrow> nat" where
  "runeLen [] = 0"
| "runeLen (b0 # bs) =
     (let x = byte b0 in
      if x < 0x80 then 1
      else if 0xC2 \<le> x \<and> x \<le> 0xDF then
        (case bs of b1 # _ \<Rightarrow> if continuation b1 then 2 else 0 | _ \<Rightarrow> 0)
      else if 0xE0 \<le> x \<and> x \<le> 0xEF then
        (case bs of b1 # b2 # _ \<Rightarrow>
           if (if x = 0xE0 then 0xA0 else 0x80) \<le> byte b1
              \<and> byte b1 \<le> (if x = 0xED then 0x9F else 0xBF) \<and> continuation b2
           then 3 else 0
         | _ \<Rightarrow> 0)
      else if 0xF0 \<le> x \<and> x \<le> 0xF4 then
        (case bs of b1 # b2 # b3 # _ \<Rightarrow>
           if (if x = 0xF0 then 0x90 else 0x80) \<le> byte b1
              \<and> byte b1 \<le> (if x = 0xF4 then 0x8F else 0xBF) \<and> continuation b2 \<and> continuation b3
           then 4 else 0
         | _ \<Rightarrow> 0)
      else 0)"

definition escapeByte :: "char \<Rightarrow> char option" where
  "escapeByte e =
     (if e = CHR 0x22 \<or> e = CHR 0x5C \<or> e = CHR ''/'' then Some e
      else if e = CHR ''b'' then Some (CHR 0x08)
      else if e = CHR ''f'' then Some (CHR 0x0C)
      else if e = CHR ''n'' then Some (CHR 0x0A)
      else if e = CHR ''r'' then Some (CHR 0x0D)
      else if e = CHR ''t'' then Some (CHR 0x09)
      else None)"

text \<open>
  \<^verbatim>\<open>unquote\<close> on the bytes between the quotes: \<open>None\<close> for a control byte, a bare
  quote or a bad escape (the scanner's syntax errors); a surrogate pair of hexadecimal
  escapes is one rune, a lone surrogate and every ill-formed UTF-8 byte is U+FFFD.
\<close>

function unquote :: "string \<Rightarrow> string option" where
  "unquote [] = Some []"
| "unquote (c # cs) =
     (if c = CHR 0x5C then
        (case cs of
           [] \<Rightarrow> None
         | e # rest \<Rightarrow>
            if e = CHR ''u'' then
              (case getu4 (c # cs) of
                 None \<Rightarrow> None
               | Some rr \<Rightarrow>
                  if 0xD800 \<le> rr \<and> rr < 0xE000 then
                    (case getu4 (drop 5 cs) of
                       Some rr1 \<Rightarrow>
                         if rr < 0xDC00 \<and> 0xDC00 \<le> rr1 \<and> rr1 < 0xE000
                         then map_option
                                ((@) (encodeRune ((rr - 0xD800) * 1024 + (rr1 - 0xDC00) + 0x10000)))
                                (unquote (drop 11 cs))
                         else map_option ((@) (encodeRune 0xFFFD)) (unquote (drop 5 cs))
                     | None \<Rightarrow> map_option ((@) (encodeRune 0xFFFD)) (unquote (drop 5 cs)))
                  else map_option ((@) (encodeRune rr)) (unquote (drop 5 cs)))
            else (case escapeByte e of
                    None \<Rightarrow> None
                  | Some b \<Rightarrow> map_option ((#) b) (unquote rest)))
      else if c = CHR 0x22 \<or> byte c < 0x20 then None
      else if byte c < 0x80 then map_option ((#) c) (unquote cs)
      else (let n = runeLen (c # cs) in
            if n = 0 then map_option ((@) (encodeRune 0xFFFD)) (unquote cs)
            else map_option ((@) (take n (c # cs))) (unquote (drop (n - 1) cs))))"
  by pat_completeness auto
termination
  by (relation "measure length") auto

subsection \<open>Number literals\<close>

definition digitsOnly :: "string \<Rightarrow> bool" where
  "digitsOnly s = (s \<noteq> [] \<and> list_all isDigit s)"

fun digitsVal :: "int \<Rightarrow> string \<Rightarrow> int" where
  "digitsVal acc [] = acc"
| "digitsVal acc (c # cs) = digitsVal (10 * acc + (byte c - 0x30)) cs"

record number_parts =
  negative :: bool
  int_digits :: string
  frac_digits :: string
  exp_negative :: bool
  exp_digits :: string

text \<open>
  The JSON number grammar: an optional minus, \<^verbatim>\<open>0\<close> or a digit string without a
  leading zero, an optional fraction, an optional exponent; nothing may follow.
\<close>

definition numberParts :: "string \<Rightarrow> number_parts option" where
  "numberParts lit =
     (let neg = (lit \<noteq> [] \<and> hd lit = CHR ''-'');
          s1 = (if neg then tl lit else lit);
          ip = takeWhile isDigit s1;
          s2 = dropWhile isDigit s1;
          has_frac = (s2 \<noteq> [] \<and> hd s2 = CHR ''.'');
          fp = (if has_frac then takeWhile isDigit (tl s2) else []);
          s3 = (if has_frac then dropWhile isDigit (tl s2) else s2);
          has_exp = (s3 \<noteq> [] \<and> (hd s3 = CHR ''e'' \<or> hd s3 = CHR ''E''));
          s4 = (if has_exp then tl s3 else s3);
          has_sign = (has_exp \<and> s4 \<noteq> [] \<and> (hd s4 = CHR ''+'' \<or> hd s4 = CHR ''-''));
          eneg = (has_sign \<and> hd s4 = CHR ''-'');
          s5 = (if has_sign then tl s4 else s4);
          ep = (if has_exp then takeWhile isDigit s5 else []);
          s6 = (if has_exp then dropWhile isDigit s5 else s5)
      in if ip \<noteq> [] \<and> (ip = ''0'' \<or> hd ip \<noteq> CHR ''0'')
            \<and> (if has_frac then fp \<noteq> [] else True)
            \<and> (if has_exp then ep \<noteq> [] else True) \<and> s6 = []
         then Some \<lparr>negative = neg, int_digits = ip, frac_digits = fp,
                     exp_negative = eneg, exp_digits = ep\<rparr>
         else None)"

definition mantissa :: "number_parts \<Rightarrow> int" where
  "mantissa p = digitsVal 0 (int_digits p @ frac_digits p)"

definition exponent :: "number_parts \<Rightarrow> int" where
  "exponent p =
     (if exp_negative p then - digitsVal 0 (exp_digits p) else digitsVal 0 (exp_digits p))
     - int (length (frac_digits p))"

definition numberValue :: "number_parts \<Rightarrow> rat" where
  "numberValue p =
     (let v = (if 0 \<le> exponent p then of_int (mantissa p * 10 ^ nat (exponent p))
               else of_int (mantissa p) / of_int (10 ^ nat (- exponent p)))
      in if negative p then - v else v)"

text \<open>
  \<^verbatim>\<open>strconv.ParseFloat(s, 64)\<close> fails with a range error when the value is at least
  half an ulp above the largest finite binary64 number, that is from
  \<open>2 ^ 1024 - 2 ^ 970\<close> on; \<^verbatim>\<open>convertNumber\<close> turns that into an unmarshal error.
\<close>

definition float64Overflow :: "number_parts \<Rightarrow> bool" where
  "float64Overflow p =
     (if 0 \<le> exponent p then 2 ^ 1024 - 2 ^ 970 \<le> mantissa p * 10 ^ nat (exponent p)
      else (2 ^ 1024 - 2 ^ 970) * 10 ^ nat (- exponent p) \<le> mantissa p)"

definition parseFloat64 :: "string \<Rightarrow> rat option" where
  "parseFloat64 lit =
     (case numberParts lit of
        None \<Rightarrow> None
      | Some p \<Rightarrow> if float64Overflow p then None else Some (numberValue p))"

text \<open>
  \<^verbatim>\<open>strconv.ParseUint(s, 10, 64)\<close>, which a \<^verbatim>\<open>uint\<close> field is stored through:
  decimal digits only (no sign, fraction or exponent) and a value below \<open>2 ^ 64\<close>.
\<close>

definition parseUint64 :: "string \<Rightarrow> uint option" where
  "parseUint64 lit =
     (if digitsOnly lit \<and> digitsVal 0 lit < 2 ^ 64 then Some (word_of_int (digitsVal 0 lit))
      else None)"

subsection \<open>Tokens\<close>

datatype lexstate = LIdle | LString string | LEscape string | LNumber string | LWord string

datatype idle = Skip | Emit token | Enter lexstate | Bad

definition idleChar :: "char \<Rightarrow> idle" where
  "idleChar c =
     (if isSpace c then Skip
      else if c = CHR ''{'' then Emit TLBrace
      else if c = CHR ''}'' then Emit TRBrace
      else if c = CHR ''['' then Emit TLBracket
      else if c = CHR '']'' then Emit TRBracket
      else if c = CHR '':'' then Emit TColon
      else if c = CHR '','' then Emit TComma
      else if c = CHR 0x22 then Enter (LString [])
      else if c = CHR ''-'' \<or> isDigit c then Enter (LNumber [c])
      else if 0x61 \<le> byte c \<and> byte c \<le> 0x7A then Enter (LWord [c])
      else Bad)"

definition numberChar :: "char \<Rightarrow> bool" where
  "numberChar c = (isDigit c \<or> c = CHR ''-'' \<or> c = CHR ''+'' \<or> c = CHR ''.''
                    \<or> c = CHR ''e'' \<or> c = CHR ''E'')"

definition numberToken :: "string \<Rightarrow> token option" where
  "numberToken lit = (if numberParts lit = None then None else Some (TScalar (JNumber lit)))"

definition wordToken :: "string \<Rightarrow> token option" where
  "wordToken w =
     (if w = ''true'' then Some (TScalar (JBool True))
      else if w = ''false'' then Some (TScalar (JBool False))
      else if w = ''null'' then Some (TScalar JNull)
      else None)"

definition emit :: "token option \<Rightarrow> token list option \<Rightarrow> token list option" where
  "emit t ts = (case t of None \<Rightarrow> None | Some x \<Rightarrow> map_option ((#) x) ts)"

text \<open>
  One pass over the bytes. A number or a literal name is the longest run of its
  characters; in valid JSON such a run is always followed by white space or punctuation,
  so a run that is not a number (or not one of the three names) is a syntax error.
\<close>

fun scan :: "lexstate \<Rightarrow> string \<Rightarrow> token list option" where
  "scan LIdle [] = Some []"
| "scan (LString raw) [] = None"
| "scan (LEscape raw) [] = None"
| "scan (LNumber lit) [] = emit (numberToken lit) (Some [])"
| "scan (LWord w) [] = emit (wordToken w) (Some [])"
| "scan LIdle (c # cs) =
     (case idleChar c of
        Skip \<Rightarrow> scan LIdle cs
      | Emit t \<Rightarrow> emit (Some t) (scan LIdle cs)
      | Enter s \<Rightarrow> scan s cs
      | Bad \<Rightarrow> None)"
| "scan (LString raw) (c # cs) =
     (if c = CHR 0x22 then emit (map_option (\<lambda>s. TScalar (JString s)) (unquote raw)) (scan LIdle cs)
      else if c = CHR 0x5C then scan (LEscape (raw @ [c])) cs
      else scan (LString (raw @ [c])) cs)"
| "scan (LEscape raw) (c # cs) = scan (LString (raw @ [c])) cs"
| "scan (LNumber lit) (c # cs) =
     (if numberChar c then scan (LNumber (lit @ [c])) cs
      else (case idleChar c of
              Skip \<Rightarrow> emit (numberToken lit) (scan LIdle cs)
            | Emit t \<Rightarrow> emit (numberToken lit) (emit (Some t) (scan LIdle cs))
            | Enter s \<Rightarrow> emit (numberToken lit) (scan s cs)
            | Bad \<Rightarrow> None))"
| "scan (LWord w) (c # cs) =
     (if 0x61 \<le> byte c \<and> byte c \<le> 0x7A then scan (LWord (w @ [c])) cs
      else (case idleChar c of
              Skip \<Rightarrow> emit (wordToken w) (scan LIdle cs)
            | Emit t \<Rightarrow> emit (wordToken w) (emit (Some t) (scan LIdle cs))
            | Enter s \<Rightarrow> emit (wordToken w) (scan s cs)
            | Bad \<Rightarrow> None))"

subsection \<open>Values\<close>

text \<open>
  The value grammar as a stack machine over the tokens: one frame per open array or
  object, as in the scanner's \<^verbatim>\<open>parseState\<close>, which refuses to grow beyond
  \<^verbatim>\<open>maxNestingDepth\<close>. After the top-level value only the end of input is accepted.
\<close>

datatype frame = FArray "json list" | FObject "(string \<times> json) list"
  | FMember "(string \<times> json) list" string

datatype expect = XValue | XArrayStart | XObjectStart | XKey | XColon | XAfter | XDone json

definition maxNestingDepth :: int where
  "maxNestingDepth = 10000"

fun closeValue :: "json \<Rightarrow> frame list \<Rightarrow> (frame list \<times> expect) option" where
  "closeValue v [] = Some ([], XDone v)"
| "closeValue v (FArray es # st) = Some (FArray (v # es) # st, XAfter)"
| "closeValue v (FMember ms k # st) = Some (FObject ((k, v) # ms) # st, XAfter)"
| "closeValue v (FObject ms # st) = None"

definition beginValue :: "frame list \<Rightarrow> token \<Rightarrow> (frame list \<times> expect) option" where
  "beginValue st t =
     (case t of
        TScalar v \<Rightarrow> closeValue v st
      | TLBracket \<Rightarrow>
          if int (length st) < maxNestingDepth then Some (FArray [] # st, XArrayStart) else None
      | TLBrace \<Rightarrow>
          if int (length st) < maxNestingDepth then Some (FObject [] # st, XObjectStart) else None
      | _ \<Rightarrow> None)"

definition beginKey :: "frame list \<Rightarrow> token \<Rightarrow> (frame list \<times> expect) option" where
  "beginKey st t =
     (case (t, st) of
        (TScalar (JString k), FObject ms # st') \<Rightarrow> Some (FMember ms k # st', XColon)
      | _ \<Rightarrow> None)"

definition stepToken :: "frame list \<Rightarrow> expect \<Rightarrow> token \<Rightarrow> (frame list \<times> expect) option" where
  "stepToken st x t =
     (case x of
        XValue \<Rightarrow> beginValue st t
      | XArrayStart \<Rightarrow>
          (case (t, st) of
             (TRBracket, FArray es # st') \<Rightarrow> closeValue (JArray (rev es)) st'
           | _ \<Rightarrow> beginValue st t)
      | XObjectStart \<Rightarrow>
          (case (t, st) of
             (TRBrace, FObject ms # st') \<Rightarrow> closeValue (JObject (rev ms)) st'
           | _ \<Rightarrow> beginKey st t)
      | XKey \<Rightarrow> beginKey st t
      | XColon \<Rightarrow> (if t = TColon then Some (st, XValue) else None)
      | XAfter \<Rightarrow>
          (case (t, st) of
             (TComma, FArray es # st') \<Rightarrow> Some (st, XValue)
           | (TRBracket, FArray es # st') \<Rightarrow> closeValue (JArray (rev es)) st'
           | (TComma, FObject ms # st') \<Rightarrow> Some (st, XKey)
           | (TRBrace, FObject ms # st') \<Rightarrow> closeValue (JObject (rev ms)) st'
           | _ \<Rightarrow> None)
      | XDone v \<Rightarrow> None)"

fun build :: "frame list \<Rightarrow> expect \<Rightarrow> token list \<Rightarrow> json option" where
  "build st x [] = (case x of XDone v \<Rightarrow> Some v | _ \<Rightarrow> None)"
| "build st x (t # ts) =
     (case stepToken st x t of None \<Rightarrow> None | Some (st', x') \<Rightarrow> build st' x' ts)"

text \<open>\<open>None\<close> is the \<^verbatim>\<open>SyntaxError\<close> of \<^verbatim>\<open>checkValid\<close>.\<close>

definition parseJSON :: "string \<Rightarrow> json option" where
  "parseJSON data = (case scan LIdle data of None \<Rightarrow> None | Some ts \<Rightarrow> build [] XValue ts)"

subsection \<open>Storing into \<^verbatim>\<open>interface{}\<close> and into struct fields\<close>

text \<open>
  Into an \<^verbatim>\<open>interface{}\<close>: every JSON value is accepted, a number through
  \<^verbatim>\<open>convertNumber\<close>; of a repeated object key the last member stays.
\<close>

fun valueInterface :: "json \<Rightarrow> go_value option"
  and arrayInterface :: "json list \<Rightarrow> go_value list option"
  and objectInterface :: "(string \<times> json) list \<Rightarrow> (string \<times> go_value) list option" where
  "valueInterface JNull = Some VNil"
| "valueInterface (JBool b) = Some (VBool b)"
| "valueInterface (JNumber lit) = map_option VFloat64 (parseFloat64 lit)"
| "valueInterface (JString s) = Some (VString s)"
| "valueInterface (JArray vs) = map_option VSlice (arrayInterface vs)"
| "valueInterface (JObject ms) = map_option VMap (objectInterface ms)"
| "arrayInterface [] = Some []"
| "arrayInterface (v # vs) =
     (case valueInterface v of
        None \<Rightarrow> None
      | Some x \<Rightarrow> map_option ((#) x) (arrayInterface vs))"
| "objectInterface [] = Some []"
| "objectInterface ((k, v) # ms) =
     (case valueInterface v of
        None \<Rightarrow> None
      | Some x \<Rightarrow>
          map_option (\<lambda>rest. if map_of rest k = None then (k, x) # rest else rest)
            (objectInterface ms))"

text \<open>
  Into a \<^verbatim>\<open>string\<close> field: a JSON string is stored, \<^verbatim>\<open>null\<close> leaves the field as
  it is, anything else is an \<^verbatim>\<open>UnmarshalTypeError\<close>. Into a \<^verbatim>\<open>uint\<close> field
  likewise, with a number that \<^verbatim>\<open>ParseUint\<close> accepts.
\<close>

definition storeString :: "json \<Rightarrow> string \<Rightarrow> string option" where
  "storeString v old = (case v of JString s \<Rightarrow> Some s | JNull \<Rightarrow> Some old | _ \<Rightarrow> None)"

definition storeUint :: "json \<Rightarrow> uint \<Rightarrow> uint option" where
  "storeUint v old = (case v of JNumber lit \<Rightarrow> parseUint64 lit | JNull \<Rightarrow> Some old | _ \<Rightarrow> None)"

definition upper :: "char \<Rightarrow> char" where
  "upper c = (if 0x61 \<le> byte c \<and> byte c \<le> 0x7A then char_of (byte c - 0x20) else c)"

text \<open>
  An object key selects the field whose tag it equals under Unicode simple case folding.
  The tags here are ASCII; besides the ASCII letters only U+017F (long s) and U+212A
  (Kelvin sign) fold to an ASCII letter.
\<close>

function foldName :: "string \<Rightarrow> string" where
  "foldName [] = []"
| "foldName (c # cs) =
     (if c = CHR 0xC5 \<and> take 1 cs = [CHR 0xBF] then CHR ''S'' # foldName (drop 1 cs)
      else if c = CHR 0xE2 \<and> take 2 cs = [CHR 0x84, CHR 0xAA] then CHR ''K'' # foldName (drop 2 cs)
      else upper c # foldName cs)"
  by pat_completeness auto
termination
  by (relation "measure length") auto

text \<open>
  The members of an object stored into a \<^verbatim>\<open>CommandResult\<close>, in order; tags
  \<^verbatim>\<open>error\<close>, \<^verbatim>\<open>data\<close>, \<^verbatim>\<open>request_id\<close>. A member with any other key is skipped.
\<close>

fun resultObject :: "CommandResult \<Rightarrow> (string \<times> json) list \<Rightarrow> CommandResult option" where
  "resultObject r [] = Some r"
| "resultObject r ((k, v) # ms) =
     (if foldName k = ''ERROR'' then
        (case storeString v (Status r) of
           None \<Rightarrow> None
         | Some s \<Rightarrow> resultObject (r\<lparr>Status := s\<rparr>) ms)
      else if foldName k = ''DATA'' then
        (case valueInterface v of
           None \<Rightarrow> None
         | Some d \<Rightarrow> resultObject (r\<lparr>CommandResult.Data := d\<rparr>) ms)
      else if foldName k = ''REQUEST_ID'' then
        (case storeUint v (CommandResult.ID r) of
           None \<Rightarrow> None
         | Some n \<Rightarrow> resultObject (r\<lparr>CommandResult.ID := n\<rparr>) ms)
      else resultObject r ms)"

text \<open>
  \<^verbatim>\<open>json.Unmarshal(data, &result)\<close> with \<^verbatim>\<open>result := CommandResult{}\<close>:
  \<open>None\<close> when it returns an error, otherwise the struct afterwards. The JSON value
  \<^verbatim>\<open>null\<close> stores nothing and is no error; a value that is neither an object nor
  \<^verbatim>\<open>null\<close> is a type error.
\<close>

definition unmarshalCommandResult :: "string \<Rightarrow> CommandResult option" where
  "unmarshalCommandResult data =
     (case parseJSON data of
        None \<Rightarrow> None
      | Some JNull \<Rightarrow> Some zeroCommandResult
      | Some (JObject ms) \<Rightarrow> resultObject zeroCommandResult ms
      | Some _ \<Rightarrow> None)"

text \<open>
  The same for an \<^verbatim>\<open>Event\<close>; tags \<^verbatim>\<open>event\<close>, \<^verbatim>\<open>reason\<close>, \<^verbatim>\<open>prefix\<close>,
  \<^verbatim>\<open>level\<close>, \<^verbatim>\<open>text\<close>, \<^verbatim>\<open>id\<close>, \<^verbatim>\<open>data\<close>, \<^verbatim>\<open>error\<close>.
\<close>

fun eventObject :: "Event \<Rightarrow> (string \<times> json) list \<Rightarrow> Event option" where
  "eventObject ev [] = Some ev"
| "eventObject ev ((k, v) # ms) =
     (if foldName k = ''EVENT'' then
        (case storeString v (Name ev) of
           None \<Rightarrow> None
         | Some s \<Rightarrow> eventObject (ev\<lparr>Name := s\<rparr>) ms)
      else if foldName k = ''REASON'' then
        (case storeString v (Reason ev) of
           None \<Rightarrow> None
         | Some s \<Rightarrow> eventObject (ev\<lparr>Reason := s\<rparr>) ms)
      else if foldName k = ''PREFIX'' then
        (case storeString v (Prefix ev) of
           None \<Rightarrow> None
         | Some s \<Rightarrow> eventObject (ev\<lparr>Prefix := s\<rparr>) ms)
      else if foldName k = ''LEVEL'' then
        (case storeString v (Level ev) of
           None \<Rightarrow> None
         | Some s \<Rightarrow> eventObject (ev\<lparr>Level := s\<rparr>) ms)
      else if foldName k = ''TEXT'' then
        (case storeString v (Text ev) of
           None \<Rightarrow> None
         | Some s \<Rightarrow> eventObject (ev\<lparr>Text := s\<rparr>) ms)
      else if foldName k = ''ID'' then
        (case storeUint v (Event.ID ev) of
           None \<Rightarrow> None
         | Some n \<Rightarrow> eventObject (ev\<lparr>Event.ID := n\<rparr>) ms)
      else if foldName k = ''DATA'' then
        (case valueInterface v of
           None \<Rightarrow> None
         | Some d \<Rightarrow> eventObject (ev\<lparr>Event.Data := d\<rparr>) ms)
      else if foldName k = ''ERROR'' then
        (case storeString v (Error ev) of
           None \<Rightarrow> None
         | Some s \<Rightarrow> eventObject (ev\<lparr>Error := s\<rparr>) ms)
      else eventObject ev ms)"

text \<open>
  \<^verbatim>\<open>checkEvent\<close> passes \<^verbatim>\<open>&event\<close> where \<^verbatim>\<open>event\<close> is itself the pointer
  \<^verbatim>\<open>&Event{}\<close>. For the JSON value \<^verbatim>\<open>null\<close> the decoder therefore sets that
  pointer to \<^verbatim>\<open>nil\<close> and reports no error.
\<close>

datatype unmarshalled = UnmarshalError | NilPointer | Pointer Event

definition unmarshalEvent :: "string \<Rightarrow> unmarshalled" where
  "unmarshalEvent data =
     (case parseJSON data of
        None \<Rightarrow> UnmarshalError
      | Some JNull \<Rightarrow> NilPointer
      | Some (JObject ms) \<Rightarrow>
          (case eventObject zeroEvent ms of None \<Rightarrow> UnmarshalError | Some ev \<Rightarrow> Pointer ev)
      | Some _ \<Rightarrow> UnmarshalError)"

section \<open>The connection\<close>

text \<open>
  Function values are opaque: a callback is known by a name, and calling it is recorded
  as an action. \<open>UserFunc\<close> is a function passed in by the caller; \<open>CallFunc ch\<close> is
  the function literal inside \<^verbatim>\<open>Call\<close>, which assigns its two arguments to the
  results \<^verbatim>\<open>data, err\<close> and then sends on the channel \<^verbatim>\<open>finish\<close> (named
  \<open>ch\<close>). \<open>Waiting f id\<close> is the function literal that \<^verbatim>\<open>CallAsync\<close> stores in
  \<^verbatim>\<open>waitingRequests\<close>, with the \<^verbatim>\<open>f\<close> and the \<^verbatim>\<open>id\<close> it captured. A
  parameter of function type can be \<^verbatim>\<open>nil\<close>, hence the \<open>option\<close>s. What a
  callback does when it runs is outside this theory; in particular it is taken not to
  write through the \<^verbatim>\<open>*Event\<close> it is handed, which all listeners of one event share.
\<close>

datatype completion = UserFunc nat | CallFunc nat

datatype listener = Listener nat

datatype request = Waiting completion uint

datatype net_Conn = Conn nat

text \<open>
  The struct. The two Go maps are association lists with one entry per key
  (\<^const>\<open>AList.update\<close>, \<^const>\<open>AList.delete\<close>, \<^const>\<open>map_of\<close>); the order of the list
  stands for the unspecified order in which \<^verbatim>\<open>range\<close> visits a map. The mutex
  \<^verbatim>\<open>lock\<close> is not a field here: every function releases it before it returns, and
  where it is taken and released is recorded in the actions.
\<close>

record Connection =
  client :: "net_Conn option"
  socketName :: string
  lastRequest :: uint
  waitingRequests :: "(uint \<times> request) list"
  lastListener :: uint
  eventListeners :: "(uint \<times> listener option) list"

text \<open>
  What a function does besides changing the struct, in program order: mutex operations,
  calls into the transport, the start of the reader goroutine, and calls of function
  values.
\<close>

datatype action =
    Lock
  | Unlock
  | Dial string
  | GoListen
  | ConnWrite net_Conn string
  | ConnClose net_Conn
  | CallRequest request CommandResult
  | CallCompletion completion go_value "error option"
  | CallListener uint listener Event

text \<open>
  The results of the library and transport calls made by one \<^verbatim>\<open>SendCommand\<close>:
  \<^verbatim>\<open>json.Marshal\<close> (a function of the message) and the two \<^verbatim>\<open>Write\<close>s.
\<close>

record transport =
  json_Marshal :: "commandRequest \<Rightarrow> error + string"
  Write_data :: "error option"
  Write_newline :: "error option"

definition NewConnection :: "string \<Rightarrow> Connection" where
  "NewConnection name =
     \<lparr>client = None, socketName = name, lastRequest = 0, waitingRequests = [],
      lastListener = 0, eventListeners = []\<rparr>"

text \<open>
  \<^verbatim>\<open>Open\<close>. The platform's \<^verbatim>\<open>dial\<close> is not part of \<^verbatim>\<open>mpvipc.go\<close>; its
  result is the parameter \<open>dialed\<close>. It is only called when no client is set.
\<close>

definition Open :: "Connection \<Rightarrow> error + net_Conn \<Rightarrow> error option \<times> Connection \<times> action list" where
  "Open c dialed =
     (if client c \<noteq> None then (Some (Errorf ''already open''), c, [Lock, Unlock])
      else case dialed of
             Inl err \<Rightarrow>
               (Some (Errorf (''can't connect to mpv's socket: '' @ message err)), c,
                [Lock, Dial (socketName c), Unlock])
           | Inr nc \<Rightarrow>
               (None, c\<lparr>client := Some nc\<rparr>, [Lock, Dial (socketName c), GoListen, Unlock]))"

text \<open>
  \<^verbatim>\<open>ListenForEvents\<close> returns a function literal that captured \<^verbatim>\<open>id\<close>; the
  model returns that \<open>id\<close>, and \<open>cancel\<close> is the body of the literal.
\<close>

definition ListenForEvents :: "Connection \<Rightarrow> listener option \<Rightarrow> uint \<times> Connection \<times> action list" where
  "ListenForEvents c onEvent =
     (let id' = lastListener c + 1
      in (id',
          c\<lparr>lastListener := id', eventListeners := AList.update id' onEvent (eventListeners c)\<rparr>,
          [Lock, Unlock]))"

definition cancel :: "Connection \<Rightarrow> uint \<Rightarrow> Connection \<times> action list" where
  "cancel c id' = (c\<lparr>eventListeners := AList.delete id' (eventListeners c)\<rparr>, [Lock, Unlock])"

definition SendCommand ::
  "Connection \<Rightarrow> uint \<Rightarrow> go_value list \<Rightarrow> transport \<Rightarrow> error option \<times> Connection \<times> action list" where
  "SendCommand c id' arguments io =
     (case client c of
        None \<Rightarrow> (Some (Errorf ''trying to send command on closed mpv client''), c, [])
      | Some nc \<Rightarrow>
          (case json_Marshal io \<lparr>Arguments = arguments, commandRequest.ID = id'\<rparr> of
             Inl err \<Rightarrow> (Some (Errorf (''can't encode command: '' @ message err)), c, [])
           | Inr data \<Rightarrow>
               (case Write_data io of
                  Some err \<Rightarrow>
                    (Some (Errorf (''can't write command: '' @ message err)), c,
                     [ConnWrite nc data])
                | None \<Rightarrow>
                    (case Write_newline io of
                       Some err \<Rightarrow>
                         (Some (Errorf (''can't terminate command: '' @ message err)), c,
                          [ConnWrite nc data, ConnWrite nc [CHR 0x0A]])
                     | None \<Rightarrow>
                         (None, c, [ConnWrite nc data, ConnWrite nc [CHR 0x0A]])))))"

definition CallAsync ::
  "Connection \<Rightarrow> completion option \<Rightarrow> go_value list \<Rightarrow> transport
     \<Rightarrow> error option \<times> Connection \<times> action list" where
  "CallAsync c f args io =
     (let id' = lastRequest c + 1;
          c1 = c\<lparr>lastRequest := id'\<rparr>;
          c2 = (case f of
                  None \<Rightarrow> c1
                | Some g \<Rightarrow>
                    c1\<lparr>waitingRequests := AList.update id' (Waiting g id') (waitingRequests c1)\<rparr>);
          (err, c3, sent) = SendCommand c2 id' args io
      in (err, c3, [Lock, Unlock] @ sent))"

text \<open>
  \<^verbatim>\<open>Call\<close> either returns at once or blocks receiving from \<^verbatim>\<open>finish\<close>; blocked,
  it returns the pair that the call of \<open>CallFunc finish\<close> stores. On the early return
  the statement is \<^verbatim>\<open>return nil, err\<close>, and the named result \<^verbatim>\<open>err\<close> still holds
  its zero value \<^verbatim>\<open>nil\<close>, nothing having run the callback.
\<close>

datatype call = CallReturns go_value "error option" | CallBlocks nat

definition Call ::
  "Connection \<Rightarrow> nat \<Rightarrow> go_value list \<Rightarrow> transport \<Rightarrow> call \<times> Connection \<times> action list" where
  "Call c finish arguments io =
     (let (callErr, c', acts) = CallAsync c (Some (CallFunc finish)) arguments io
      in if callErr \<noteq> None then (CallReturns VNil None, c', acts)
         else (CallBlocks finish, c', acts))"

text \<open>\<^verbatim>\<open>Close\<close>; \<open>closeErr\<close> is what \<^verbatim>\<open>c.client.Close()\<close> returns when it is called.\<close>

definition Close :: "Connection \<Rightarrow> error option \<Rightarrow> error option \<times> Connection \<times> action list" where
  "Close c closeErr =
     (case client c of
        Some nc \<Rightarrow> (closeErr, c\<lparr>client := None\<rparr>, [Lock, ConnClose nc, Unlock])
      | None \<Rightarrow> (None, c, [Lock, Unlock]))"

definition IsClosed :: "Connection \<Rightarrow> bool \<times> action list" where
  "IsClosed c = (client c = None, [Lock, Unlock])"

section \<open>The reader goroutine\<close>

subsection \<open>\<^verbatim>\<open>checkResult\<close>\<close>

text \<open>
  \<^verbatim>\<open>checkResult\<close> up to the test \<^verbatim>\<open>request != nil\<close>: the line is decoded, and
  unless decoding fails or \<^verbatim>\<open>Status\<close> is empty the table is read under the mutex.
\<close>

definition lookupRequest :: "Connection \<Rightarrow> string \<Rightarrow> (request \<times> CommandResult) option \<times> action list" where
  "lookupRequest c data =
     (case unmarshalCommandResult data of
        None \<Rightarrow> (None, [])
      | Some result \<Rightarrow>
          if Status result = [] then (None, [])
          else (map_option (\<lambda>request. (request, result))
                  (map_of (waitingRequests c) (CommandResult.ID result)),
                [Lock, Unlock]))"

text \<open>
  The function literal of \<^verbatim>\<open>CallAsync\<close> in two parts: the call of \<^verbatim>\<open>f\<close>, made
  without the mutex, and the removal of the entry under the mutex.
\<close>

fun callCompletion :: "request \<Rightarrow> CommandResult \<Rightarrow> action list" where
  "callCompletion (Waiting f id') r =
     (if Status r = ''success'' then [CallCompletion f (CommandResult.Data r) None]
      else [CallCompletion f VNil (Some (Errorf (''mpv error: '' @ Status r)))])"

definition deleteRequest :: "Connection \<Rightarrow> uint \<Rightarrow> Connection \<times> action list" where
  "deleteRequest c id' = (c\<lparr>waitingRequests := AList.delete id' (waitingRequests c)\<rparr>, [Lock, Unlock])"

fun requestID :: "request \<Rightarrow> uint" where
  "requestID (Waiting f id') = id'"

definition checkResult :: "Connection \<Rightarrow> string \<Rightarrow> Connection \<times> action list" where
  "checkResult c data =
     (case lookupRequest c data of
        (None, acts) \<Rightarrow> (c, acts)
      | (Some (request, result), acts) \<Rightarrow>
          (let (c', acts') = deleteRequest c (requestID request)
           in (c', acts @ [CallRequest request result] @ callCompletion request result @ acts')))"

subsection \<open>\<^verbatim>\<open>checkEvent\<close>\<close>

text \<open>
  A goroutine that dereferences a \<^verbatim>\<open>nil\<close> pointer or calls a \<^verbatim>\<open>nil\<close> function
  panics, which ends the program.
\<close>

datatype outcome = Returns | Panics

text \<open>
  The \<^verbatim>\<open>range\<close> loop: for each key the listener is read from the map and called,
  all inside the critical section.
\<close>

fun notify :: "(uint \<times> listener option) list \<Rightarrow> uint list \<Rightarrow> Event \<Rightarrow> outcome \<times> action list" where
  "notify m [] event = (Returns, [])"
| "notify m (listenerID # rest) event =
     (case map_of m listenerID of
        Some (Some l) \<Rightarrow>
          (let (out, acts) = notify m rest event in (out, CallListener listenerID l event # acts))
      | _ \<Rightarrow> (Panics, []))"

definition checkEvent :: "Connection \<Rightarrow> string \<Rightarrow> outcome \<times> action list" where
  "checkEvent c data =
     (case unmarshalEvent data of
        UnmarshalError \<Rightarrow> (Returns, [])
      | NilPointer \<Rightarrow> (Panics, [])
      | Pointer event \<Rightarrow>
          if Name event = [] then (Returns, [])
          else (let (out, acts) = notify (eventListeners c) (map fst (eventListeners c)) event
                in (out, [Lock] @ acts @ (if out = Returns then [Unlock] else []))))"

subsection \<open>\<^verbatim>\<open>listen\<close>\<close>

text \<open>
  The scanner loop over the lines that \<^verbatim>\<open>scanner.Scan()\<close> delivers before it
  returns false (end of stream, read error, or a line over the buffer limit), followed
  by \<^verbatim>\<open>c.Close()\<close>.
\<close>

fun listenLoop :: "Connection \<Rightarrow> string list \<Rightarrow> outcome \<times> Connection \<times> action list" where
  "listenLoop c [] = (Returns, c, [])"
| "listenLoop c (data # rest) =
     (case checkEvent c data of
        (Panics, acts) \<Rightarrow> (Panics, c, acts)
      | (Returns, acts) \<Rightarrow>
          (let (c', acts') = checkResult c data;
               (out, c'', acts'') = listenLoop c' rest
           in (out, c'', acts @ acts' @ acts'')))"

definition listen :: "Connection \<Rightarrow> string list \<Rightarrow> error option \<Rightarrow> outcome \<times> Connection \<times> action list" where
  "listen c lines closeErr =
     (case listenLoop c lines of
        (Panics, c', acts) \<Rightarrow> (Panics, c', acts)
      | (Returns, c', acts) \<Rightarrow>
          (let (err, c'', acts') = Close c' closeErr in (Returns, c'', acts @ acts')))"

section \<open>Callers and the reader, interleaved\<close>

text \<open>
  Callers run concurrently with the reader goroutine of a session. Each method above
  touches the tables inside one critical section, so a method call is one step
  (\<^verbatim>\<open>SendCommand\<close>, which \<^verbatim>\<open>CallAsync\<close> runs after its critical section, reads
  \<^verbatim>\<open>client\<close> and touches no table). A step of a caller placed between two steps of
  the reader also stands for the same method called from inside a completion callback.
  The reader is different: between reading \<^verbatim>\<open>request\<close> from the table, calling it, and
  the removal inside it, the mutex is free and callers can run. The reader therefore
  moves in steps, and its position is part of the state:

  \<^item> \<open>AtScan\<close>: in \<^verbatim>\<open>scanner.Scan()\<close>;
  \<^item> \<open>AtCheckResult data\<close>: \<^verbatim>\<open>checkEvent(data)\<close> has returned;
  \<^item> \<open>AtRequest request result\<close>: \<^verbatim>\<open>checkResult\<close> found \<^verbatim>\<open>request\<close> and has
    released the mutex;
  \<^item> \<open>AtDelete id\<close>: inside \<^verbatim>\<open>request\<close>, after \<^verbatim>\<open>f\<close> returned;
  \<^item> \<open>Exited\<close>: the loop ended and \<^verbatim>\<open>c.Close()\<close> was called;
  \<^item> \<open>Crashed\<close>: the goroutine panicked; the program is gone and nothing moves.
\<close>

datatype reader = AtScan | AtCheckResult string | AtRequest request CommandResult
  | AtDelete uint | Exited | Crashed

record system =
  conn :: Connection
  reader :: reader

datatype step =
    DoListenForEvents "listener option"
  | DoCancel uint
  | DoCallAsync "completion option" "go_value list" transport
  | DoSendCommand uint "go_value list" transport
  | DoClose "error option"
  | ReaderLine string
  | ReaderEnd "error option"
  | ReaderStep

text \<open>A step that is not enabled in a state leaves it as it is.\<close>

definition readerStep :: "system \<Rightarrow> system \<times> action list" where
  "readerStep s =
     (case reader s of
        AtCheckResult data \<Rightarrow>
          (case lookupRequest (conn s) data of
             (None, acts) \<Rightarrow> (s\<lparr>reader := AtScan\<rparr>, acts)
           | (Some (request, result), acts) \<Rightarrow> (s\<lparr>reader := AtRequest request result\<rparr>, acts))
      | AtRequest request result \<Rightarrow>
          (s\<lparr>reader := AtDelete (requestID request)\<rparr>,
           [CallRequest request result] @ callCompletion request result)
      | AtDelete id' \<Rightarrow>
          (let (c', acts) = deleteRequest (conn s) id' in (\<lparr>conn = c', reader = AtScan\<rparr>, acts))
      | _ \<Rightarrow> (s, []))"

definition exec :: "step \<Rightarrow> system \<Rightarrow> system \<times> action list" where
  "exec st s =
     (if reader s = Crashed then (s, [])
      else case st of
        DoListenForEvents onEvent \<Rightarrow>
          (let (id', c', acts) = ListenForEvents (conn s) onEvent in (s\<lparr>conn := c'\<rparr>, acts))
      | DoCancel id' \<Rightarrow>
          (let (c', acts) = cancel (conn s) id' in (s\<lparr>conn := c'\<rparr>, acts))
      | DoCallAsync f args io \<Rightarrow>
          (let (err, c', acts) = CallAsync (conn s) f args io in (s\<lparr>conn := c'\<rparr>, acts))
      | DoSendCommand id' args io \<Rightarrow>
          (let (err, c', acts) = SendCommand (conn s) id' args io in (s\<lparr>conn := c'\<rparr>, acts))
      | DoClose closeErr \<Rightarrow>
          (let (err, c', acts) = Close (conn s) closeErr in (s\<lparr>conn := c'\<rparr>, acts))
      | ReaderLine data \<Rightarrow>
          (if reader s = AtScan then
             (case checkEvent (conn s) data of
                (Panics, acts) \<Rightarrow> (s\<lparr>reader := Crashed\<rparr>, acts)
              | (Returns, acts) \<Rightarrow> (s\<lparr>reader := AtCheckResult data\<rparr>, acts))
           else (s, []))
      | ReaderEnd closeErr \<Rightarrow>
          (if reader s = AtScan then
             (let (err, c', acts) = Close (conn s) closeErr in (\<lparr>conn = c', reader = Exited\<rparr>, acts))
           else (s, []))
      | ReaderStep \<Rightarrow> readerStep s)"

fun run :: "step list \<Rightarrow> system \<Rightarrow> system \<times> action list" where
  "run [] s = (s, [])"
| "run (st # rest) s =
     (let (s', acts) = exec st s; (s'', acts') = run rest s' in (s'', acts @ acts'))"

text \<open>A session right after a successful \<^verbatim>\<open>Open\<close> on a new connection.\<close>

definition session :: "string \<Rightarrow> net_Conn \<Rightarrow> system" where
  "session name nc = \<lparr>conn = fst (snd (Open (NewConnection name) (Inr nc))), reader = AtScan\<rparr>"

section \<open>Observations on steps and actions\<close>

fun registers :: "completion \<Rightarrow> step \<Rightarrow> bool" where
  "registers f (DoCallAsync (Some g) args io) = (g = f)"
| "registers f _ = False"

fun completes :: "completion \<Rightarrow> action \<Rightarrow> bool" where
  "completes f (CallCompletion g v err) = (g = f)"
| "completes f _ = False"

fun answers :: "action \<Rightarrow> bool" where
  "answers (CallRequest request result) = (requestID request = CommandResult.ID result)"
| "answers _ = True"

fun listens :: "listener \<Rightarrow> step \<Rightarrow> bool" where
  "listens l (DoListenForEvents (Some k)) = (k = l)"
| "listens l _ = False"

fun notifies :: "listener \<Rightarrow> action \<Rightarrow> bool" where
  "notifies l (CallListener id' k event) = (k = l)"
| "notifies l _ = False"

fun isCallback :: "action \<Rightarrow> bool" where
  "isCallback (CallCompletion f v err) = True"
| "isCallback (CallListener id' l event) = True"
| "isCallback _ = False"

text \<open>
  \<open>callbacksUnlocked held acts\<close>: starting with the mutex held or not, no callback
  of the caller is called in \<open>acts\<close> while the mutex is held.
\<close>

fun callbacksUnlocked :: "bool \<Rightarrow> action list \<Rightarrow> bool" where
  "callbacksUnlocked held [] = True"
| "callbacksUnlocked held (Lock # acts) = callbacksUnlocked True acts"
| "callbacksUnlocked held (Unlock # acts) = callbacksUnlocked False acts"
| "callbacksUnlocked held (a # acts) =
     ((if isCallback a then \<not> held else True) \<and> callbacksUnlocked held acts)"


text \<open>
  \<open>answered acts\<close>: every call of a completion in \<open>acts\<close> is the one made by a
  stored request that was called with a result carrying the request's own id, with the
  arguments that this result determines; and every called request makes that call.
\<close>

fun answered :: "action list \<Rightarrow> bool" where
  "answered [] = True"
| "answered (CallRequest request result # CallCompletion f v err # acts) =
     (requestID request = CommandResult.ID result
      \<and> callCompletion request result = [CallCompletion f v err]
      \<and> answered acts)"
| "answered (CallRequest request result # acts) = False"
| "answered (CallCompletion f v err # acts) = False"
| "answered (a # acts) = answered acts"

text \<open>The calls that one event makes to the entries of a registry, in its order.\<close>

fun listenerCalls :: "(uint \<times> listener option) list \<Rightarrow> Event \<Rightarrow> action list" where
  "listenerCalls [] event = []"
| "listenerCalls ((k, Some l) # m) event = CallListener k l event # listenerCalls m event"
| "listenerCalls ((k, None) # m) event = listenerCalls m event"


section \<open>Bookkeeping for the interleaving\<close>

text \<open>
  The requests that the steps of a schedule store in \<^verbatim>\<open>waitingRequests\<close>, each with
  the id that \<^verbatim>\<open>CallAsync\<close> allocated for it in the state where the step ran.
\<close>

fun registering :: "step \<Rightarrow> system \<Rightarrow> request list" where
  "registering (DoCallAsync (Some f) args io) s =
     (if reader s = Crashed then [] else [Waiting f (lastRequest (conn s) + 1)])"
| "registering _ s = []"

fun registered :: "step list \<Rightarrow> system \<Rightarrow> request list" where
  "registered [] s = []"
| "registered (st # rest) s = registering st s @ registered rest (fst (exec st s))"

fun requested :: "(request \<Rightarrow> bool) \<Rightarrow> action \<Rightarrow> bool" where
  "requested W (CallRequest request result) = W request"
| "requested W _ = False"

fun waits :: "completion \<Rightarrow> request \<Rightarrow> bool" where
  "waits f (Waiting g i) = (g = f)"

text \<open>
  The table key that the reader is working on, and whether the request it has read but
  not yet called satisfies \<open>W\<close>.
\<close>

fun slot :: "reader \<Rightarrow> uint option" where
  "slot (AtRequest request result) = Some (requestID request)"
| "slot (AtDelete i) = Some i"
| "slot _ = None"

fun holding :: "(request \<Rightarrow> bool) \<Rightarrow> reader \<Rightarrow> bool" where
  "holding W (AtRequest request result) = W request"
| "holding W _ = False"

text \<open>
  The number of stored requests satisfying \<open>W\<close> that can still be called: the entries of
  the table other than the one under the reader's hands, and the request the reader holds.
\<close>

definition pending :: "(request \<Rightarrow> bool) \<Rightarrow> system \<Rightarrow> nat" where
  "pending W s =
     length (filter (\<lambda>e. W (snd e) \<and> Some (fst e) \<noteq> slot (reader s)) (waitingRequests (conn s)))
     + (if holding W (reader s) then 1 else 0)"

text \<open>
  The table has one entry per key, every stored request sits under the id it captured,
  and a request the reader has looked up was found under the id of the result in hand.
\<close>

definition consistent :: "system \<Rightarrow> bool" where
  "consistent s =
     (distinct (map fst (waitingRequests (conn s)))
      \<and> list_all (\<lambda>e. requestID (snd e) = fst e) (waitingRequests (conn s))
      \<and> (case reader s of
            AtRequest request result \<Rightarrow> requestID request = CommandResult.ID result
          | _ \<Rightarrow> True))"

section \<open>Decoded lines\<close>

lemma unmarshalCommandResult_success:
  \<open>unmarshalCommandResult ''{"error":"success","data":3.5,"request_id":7}'' =
     Some \<lparr>Status = ''success'', CommandResult.Data = VFloat64 (7 / 2), CommandResult.ID = 7\<rparr>\<close>
  by code_simp

lemma unmarshalEvent_success:
  \<open>unmarshalEvent ''{"error":"success","data":3.5,"request_id":7}'' =
     Pointer (zeroEvent\<lparr>Event.Data := VFloat64 (7 / 2), Error := ''success''\<rparr>)\<close>
  by code_simp

lemma unmarshalCommandResult_failure:
  \<open>unmarshalCommandResult ''{"error":"property not found","data":null,"request_id":7}'' =
     Some \<lparr>Status = ''property not found'', CommandResult.Data = VNil, CommandResult.ID = 7\<rparr>\<close>
  by code_simp

lemma unmarshalEvent_failure:
  \<open>unmarshalEvent ''{"error":"property not found","data":null,"request_id":7}'' =
     Pointer (zeroEvent\<lparr>Error := ''property not found''\<rparr>)\<close>
  by code_simp

lemma unmarshalEvent_pause:
  \<open>unmarshalEvent ''{"event":"pause"}'' = Pointer (zeroEvent\<lparr>Name := ''pause''\<rparr>)\<close>
  by code_simp

lemma unmarshalCommandResult_pause:
  \<open>unmarshalCommandResult ''{"event":"pause"}'' = Some zeroCommandResult\<close>
  by code_simp

lemma unmarshalCommandResult_answer1:
  \<open>unmarshalCommandResult ''{"error":"success","data":3.5,"request_id":1}'' =
     Some \<lparr>Status = ''success'', CommandResult.Data = VFloat64 (7 / 2), CommandResult.ID = 1\<rparr>\<close>
  by code_simp

lemma unmarshalEvent_answer1:
  \<open>unmarshalEvent ''{"error":"success","data":3.5,"request_id":1}'' =
     Pointer (zeroEvent\<lparr>Event.Data := VFloat64 (7 / 2), Error := ''success''\<rparr>)\<close>
  by code_simp

text \<open>
  The JSON value \<^verbatim>\<open>null\<close> on a line of its own is accepted by both decoders without
  an error. \<^verbatim>\<open>checkResult\<close> then sees an empty \<^verbatim>\<open>Status\<close>; \<^verbatim>\<open>checkEvent\<close> is
  left with a \<^verbatim>\<open>nil\<close> event and panics on \<^verbatim>\<open>event.Name\<close>.
\<close>

lemma checkEvent_null: "checkEvent c ''null'' = (Panics, [])"
proof -
  have "unmarshalEvent ''null'' = NilPointer" by code_simp
  then show ?thesis by (simp add: checkEvent_def)
qed

section \<open>Sending and the life cycle of a connection\<close>

lemma SendCommand_result:
  "SendCommand c i args io = (err, c', acts) \<Longrightarrow>
     c' = c \<and> list_all (\<lambda>a. \<exists>nc d. a = ConnWrite nc d) acts"
  by (auto simp: SendCommand_def split: option.splits sum.splits)

lemma CallAsync_result:
  "CallAsync c g args io = (err, c', acts) \<Longrightarrow>
     c' = (case g of
             None \<Rightarrow> c\<lparr>lastRequest := lastRequest c + 1\<rparr>
           | Some f \<Rightarrow>
               c\<lparr>lastRequest := lastRequest c + 1,
                 waitingRequests :=
                   AList.update (lastRequest c + 1) (Waiting f (lastRequest c + 1)) (waitingRequests c)\<rparr>)
     \<and> list_all (\<lambda>a. a = Lock \<or> a = Unlock \<or> (\<exists>nc d. a = ConnWrite nc d)) acts"
proof -
  assume r: "CallAsync c g args io = (err, c', acts)"
  define c2 where "c2 = (case g of
             None \<Rightarrow> c\<lparr>lastRequest := lastRequest c + 1\<rparr>
           | Some f \<Rightarrow>
               c\<lparr>lastRequest := lastRequest c + 1,
                 waitingRequests :=
                   AList.update (lastRequest c + 1) (Waiting f (lastRequest c + 1)) (waitingRequests c)\<rparr>)"
  obtain e c3 sent where s: "SendCommand c2 (lastRequest c + 1) args io = (e, c3, sent)"
    by (cases "SendCommand c2 (lastRequest c + 1) args io") auto
  from r s have "c' = c3" "acts = [Lock, Unlock] @ sent"
    by (auto simp: CallAsync_def Let_def c2_def split: option.splits)
  moreover from SendCommand_result [OF s]
  have "c3 = c2" "list_all (\<lambda>a. \<exists>nc d. a = ConnWrite nc d) sent" by simp_all
  ultimately show ?thesis
    by (auto simp: c2_def list_all_iff)
qed

lemma Close_result:
  "Close c e = (err, c', acts) \<Longrightarrow>
     c' = c\<lparr>client := None\<rparr>
     \<and> list_all (\<lambda>a. a = Lock \<or> a = Unlock \<or> (\<exists>nc. a = ConnClose nc)) acts"
  by (auto simp: Close_def split: option.splits)

text \<open>
  C6. On a connection whose \<^verbatim>\<open>client\<close> is \<^verbatim>\<open>nil\<close>, \<^verbatim>\<open>SendCommand\<close> returns
  the error ``trying to send command on closed mpv client'' (the not-open error), writes
  nothing to the stream and leaves the connection as it was.
\<close>

theorem SendCommand_closed:
  "client c = None \<Longrightarrow>
     SendCommand c i arguments io =
       (Some (Errorf ''trying to send command on closed mpv client''), c, [])"
  by (simp add: SendCommand_def)

theorem SendCommand_closed_witness:
  "client (NewConnection ''/tmp/mpv_socket'') = None
   \<and> SendCommand (NewConnection ''/tmp/mpv_socket'') 1 [VString ''get_version'']
        \<lparr>json_Marshal = (\<lambda>m. Inr ''{}''), Write_data = None, Write_newline = None\<rparr>
      = (Some (Errorf ''trying to send command on closed mpv client''),
         NewConnection ''/tmp/mpv_socket'', [])"
  using SendCommand_closed [of "NewConnection ''/tmp/mpv_socket''" 1 "[VString ''get_version'']"
      "\<lparr>json_Marshal = (\<lambda>m. Inr ''{}''), Write_data = None, Write_newline = None\<rparr>"]
  by (simp add: NewConnection_def)

text \<open>
  C10. When \<^verbatim>\<open>dial\<close> fails inside \<^verbatim>\<open>Open\<close> (it is reached only with
  \<^verbatim>\<open>client\<close> unset), \<^verbatim>\<open>Open\<close> returns the error ``can't connect to mpv's socket:
  ...'' and the connection is exactly as before: \<^verbatim>\<open>client\<close> still \<^verbatim>\<open>nil\<close>, both
  tables and both counters untouched; no reader goroutine is started, and
  \<^verbatim>\<open>IsClosed\<close> still answers true.
\<close>

theorem Open_dial_failure:
  "client c = None \<Longrightarrow>
     Open c (Inl err) =
       (Some (Errorf (''can't connect to mpv's socket: '' @ message err)), c,
        [Lock, Dial (socketName c), Unlock])
     \<and> GoListen \<notin> set (snd (snd (Open c (Inl err))))
     \<and> client (fst (snd (Open c (Inl err)))) = None
     \<and> fst (IsClosed (fst (snd (Open c (Inl err)))))"
  by (simp add: Open_def IsClosed_def)

theorem Open_dial_failure_witness:
  "client (NewConnection ''/tmp/mpv_socket'') = None
   \<and> Open (NewConnection ''/tmp/mpv_socket'') (Inl (Errorf ''connection refused'')) =
       (Some (Errorf ''can't connect to mpv's socket: connection refused''),
        NewConnection ''/tmp/mpv_socket'',
        [Lock, Dial ''/tmp/mpv_socket'', Unlock])
   \<and> fst (IsClosed (fst (snd (Open (NewConnection ''/tmp/mpv_socket'')
                                  (Inl (Errorf ''connection refused''))))))"
  using Open_dial_failure [of "NewConnection ''/tmp/mpv_socket''" "Errorf ''connection refused''"]
  by (simp add: NewConnection_def IsClosed_def)

lemma listen_Returns_closed:
  "listen c lines closeErr = (Returns, c', acts) \<Longrightarrow> client c' = None"
  by (auto simp: listen_def Close_def split: prod.splits outcome.splits option.splits)

text \<open>
  C7. \<^verbatim>\<open>IsClosed\<close> answers true on a connection fresh from \<^verbatim>\<open>NewConnection\<close>,
  true after \<^verbatim>\<open>Close\<close> has returned, and true once the reader loop has ended on a
  failed \<^verbatim>\<open>Scan\<close> (the loop is followed by \<^verbatim>\<open>c.Close()\<close>); it answers false after
  an \<^verbatim>\<open>Open\<close> that returned no error.
\<close>

theorem IsClosed_lifecycle:
  "fst (IsClosed (NewConnection name))
   \<and> fst (IsClosed (fst (snd (Close c closeErr))))
   \<and> (listen c lines closeErr' = (Returns, c', acts) \<longrightarrow> fst (IsClosed c'))
   \<and> (Open c dialed = (None, c'', acts') \<longrightarrow> \<not> fst (IsClosed c''))"
  by (auto simp: IsClosed_def NewConnection_def Close_def Open_def listen_Returns_closed
      split: option.splits sum.splits if_splits)

theorem IsClosed_lifecycle_witness:
  \<open>fst (IsClosed (NewConnection ''/tmp/mpv_socket''))
   \<and> fst (IsClosed (fst (snd (Close (conn (session ''/tmp/mpv_socket'' (Conn 0))) None))))
   \<and> listen (conn (session ''/tmp/mpv_socket'' (Conn 0))) [''{"event":"pause"}''] None =
       (Returns, NewConnection ''/tmp/mpv_socket'',
        [Lock, Unlock, Lock, ConnClose (Conn 0), Unlock])
   \<and> fst (IsClosed (NewConnection ''/tmp/mpv_socket''))
   \<and> Open (NewConnection ''/tmp/mpv_socket'') (Inr (Conn 0)) =
       (None, conn (session ''/tmp/mpv_socket'' (Conn 0)),
        [Lock, Dial ''/tmp/mpv_socket'', GoListen, Unlock])
   \<and> \<not> fst (IsClosed (conn (session ''/tmp/mpv_socket'' (Conn 0))))\<close>
proof -
  have l: \<open>listen (conn (session ''/tmp/mpv_socket'' (Conn 0))) [''{"event":"pause"}''] None =
       (Returns, NewConnection ''/tmp/mpv_socket'',
        [Lock, Unlock, Lock, ConnClose (Conn 0), Unlock])\<close>
    by (simp add: listen_def checkEvent_def checkResult_def lookupRequest_def Close_def
        unmarshalEvent_pause unmarshalCommandResult_pause zeroEvent_def zeroCommandResult_def
        session_def Open_def NewConnection_def)
  have p: "Open (NewConnection ''/tmp/mpv_socket'') (Inr (Conn 0)) =
       (None, conn (session ''/tmp/mpv_socket'' (Conn 0)),
        [Lock, Dial ''/tmp/mpv_socket'', GoListen, Unlock])"
    by (simp add: session_def Open_def NewConnection_def)
  from IsClosed_lifecycle [of "''/tmp/mpv_socket''" "conn (session ''/tmp/mpv_socket'' (Conn 0))"
      None \<open>[''{"event":"pause"}'']\<close> None "NewConnection ''/tmp/mpv_socket''"
      "[Lock, Unlock, Lock, ConnClose (Conn 0), Unlock]" "Inr (Conn 0)"
      "conn (session ''/tmp/mpv_socket'' (Conn 0))" "[Lock, Dial ''/tmp/mpv_socket'', GoListen, Unlock]"]
    l p
  show ?thesis
    unfolding l p by (simp add: IsClosed_def Close_def session_def Open_def NewConnection_def)
qed

text \<open>
  C8. When \<^verbatim>\<open>CallAsync\<close> is given a non-nil callback and the send fails, it returns
  the send error and the entry it stored under the allocated id is still in
  \<^verbatim>\<open>waitingRequests\<close>: nothing on that path removes it.
\<close>

theorem CallAsync_send_failure_keeps_entry:
  "CallAsync c (Some f) args io = (Some err, c', acts) \<Longrightarrow>
     fst (SendCommand c' (lastRequest c + 1) args io) = Some err
     \<and> map_of (waitingRequests c') (lastRequest c + 1) = Some (Waiting f (lastRequest c + 1))"
proof -
  assume r: "CallAsync c (Some f) args io = (Some err, c', acts)"
  from CallAsync_result [OF r] have c': "c' =
      c\<lparr>lastRequest := lastRequest c + 1,
        waitingRequests :=
          AList.update (lastRequest c + 1) (Waiting f (lastRequest c + 1)) (waitingRequests c)\<rparr>"
    by simp
  with r have "fst (SendCommand c' (lastRequest c + 1) args io) = Some err"
    by (auto simp: CallAsync_def Let_def split: prod.splits)
  with c' show ?thesis by (simp add: update_conv')
qed

theorem CallAsync_send_failure_keeps_entry_witness:
  "CallAsync (NewConnection ''/tmp/mpv_socket'') (Some (UserFunc 0)) [VString ''get_version'']
       \<lparr>json_Marshal = (\<lambda>m. Inr ''{}''), Write_data = None, Write_newline = None\<rparr> =
     (Some (Errorf ''trying to send command on closed mpv client''),
      (NewConnection ''/tmp/mpv_socket'')
        \<lparr>lastRequest := 1, waitingRequests := [(1, Waiting (UserFunc 0) 1)]\<rparr>,
      [Lock, Unlock])
   \<and> map_of (waitingRequests ((NewConnection ''/tmp/mpv_socket'')
        \<lparr>lastRequest := 1, waitingRequests := [(1, Waiting (UserFunc 0) 1)]\<rparr>))
        (lastRequest (NewConnection ''/tmp/mpv_socket'') + 1) = Some (Waiting (UserFunc 0) 1)"
proof -
  have r: "CallAsync (NewConnection ''/tmp/mpv_socket'') (Some (UserFunc 0)) [VString ''get_version'']
       \<lparr>json_Marshal = (\<lambda>m. Inr ''{}''), Write_data = None, Write_newline = None\<rparr> =
     (Some (Errorf ''trying to send command on closed mpv client''),
      (NewConnection ''/tmp/mpv_socket'')
        \<lparr>lastRequest := 1, waitingRequests := [(1, Waiting (UserFunc 0) 1)]\<rparr>,
      [Lock, Unlock])"
    by (simp add: CallAsync_def SendCommand_def NewConnection_def)
  from CallAsync_send_failure_keeps_entry [OF r] r show ?thesis
    by (simp add: NewConnection_def)
qed

text \<open>
  C2 (the code departs from the specification). By the specification \<^verbatim>\<open>Call\<close>,
  when the send fails, returns at once with the send error. It does return at once, but
  the statement executed is \<^verbatim>\<open>return nil, err\<close> with the named result \<^verbatim>\<open>err\<close>,
  not \<^verbatim>\<open>callErr\<close>: on a connection that was never opened \<^verbatim>\<open>CallAsync\<close> fails
  with the not-open error and \<^verbatim>\<open>Call\<close> returns \<^verbatim>\<open>(nil, nil)\<close>.
\<close>

theorem Call_drops_send_error:
  "fst (CallAsync (NewConnection ''/tmp/mpv_socket'') (Some (CallFunc 0)) [VString ''get_version'']
          \<lparr>json_Marshal = (\<lambda>m. Inr ''{}''), Write_data = None, Write_newline = None\<rparr>)
     = Some (Errorf ''trying to send command on closed mpv client'')
   \<and> fst (Call (NewConnection ''/tmp/mpv_socket'') 0 [VString ''get_version'']
          \<lparr>json_Marshal = (\<lambda>m. Inr ''{}''), Write_data = None, Write_newline = None\<rparr>)
     = CallReturns VNil None"
  by (simp add: Call_def CallAsync_def SendCommand_def NewConnection_def)

text \<open>Whatever the send does, \<^verbatim>\<open>Call\<close> never hands its error to the caller.\<close>

lemma Call_returns:
  "fst (Call c finish arguments io) =
     (if fst (CallAsync c (Some (CallFunc finish)) arguments io) = None then CallBlocks finish
      else CallReturns VNil None)"
  by (simp add: Call_def split: prod.splits)

section \<open>What the reader does with one line\<close>

text \<open>
  C3. With a callback registered under id 7, the reader loop on the line
  \<^verbatim>\<open>{"error":"success","data":3.5,"request_id":7}\<close> calls it with the value 3.5 and
  a \<^verbatim>\<open>nil\<close> error; on the line
  \<^verbatim>\<open>{"error":"property not found","data":null,"request_id":7}\<close> it calls it with a
  \<^verbatim>\<open>nil\<close> value and the error ``mpv error: property not found''. Either way the
  entry is then removed, and no listener is involved (the line has no event name).
\<close>

theorem result_line_completes_request:
  \<open>map_of (waitingRequests c) 7 = Some (Waiting f 7) \<Longrightarrow>
     listenLoop c [''{"error":"success","data":3.5,"request_id":7}''] =
       (Returns, c\<lparr>waitingRequests := AList.delete 7 (waitingRequests c)\<rparr>,
        [Lock, Unlock,
         CallRequest (Waiting f 7)
           \<lparr>Status = ''success'', CommandResult.Data = VFloat64 (7 / 2), CommandResult.ID = 7\<rparr>,
         CallCompletion f (VFloat64 (7 / 2)) None,
         Lock, Unlock])
     \<and> listenLoop c [''{"error":"property not found","data":null,"request_id":7}''] =
       (Returns, c\<lparr>waitingRequests := AList.delete 7 (waitingRequests c)\<rparr>,
        [Lock, Unlock,
         CallRequest (Waiting f 7)
           \<lparr>Status = ''property not found'', CommandResult.Data = VNil, CommandResult.ID = 7\<rparr>,
         CallCompletion f VNil (Some (Errorf ''mpv error: property not found'')),
         Lock, Unlock])\<close>
  by (simp add: checkEvent_def checkResult_def lookupRequest_def deleteRequest_def
      unmarshalCommandResult_success unmarshalEvent_success
      unmarshalCommandResult_failure unmarshalEvent_failure zeroEvent_def)

theorem result_line_completes_request_witness:
  \<open>map_of (waitingRequests ((NewConnection ''/tmp/mpv_socket'')
       \<lparr>client := Some (Conn 0), lastRequest := 7, waitingRequests := [(7, Waiting (UserFunc 0) 7)]\<rparr>))
     7 = Some (Waiting (UserFunc 0) 7)
   \<and> listenLoop ((NewConnection ''/tmp/mpv_socket'')
       \<lparr>client := Some (Conn 0), lastRequest := 7, waitingRequests := [(7, Waiting (UserFunc 0) 7)]\<rparr>)
       [''{"error":"success","data":3.5,"request_id":7}''] =
       (Returns,
        (NewConnection ''/tmp/mpv_socket'')\<lparr>client := Some (Conn 0), lastRequest := 7\<rparr>,
        [Lock, Unlock,
         CallRequest (Waiting (UserFunc 0) 7)
           \<lparr>Status = ''success'', CommandResult.Data = VFloat64 (7 / 2), CommandResult.ID = 7\<rparr>,
         CallCompletion (UserFunc 0) (VFloat64 (7 / 2)) None,
         Lock, Unlock])
   \<and> listenLoop ((NewConnection ''/tmp/mpv_socket'')
       \<lparr>client := Some (Conn 0), lastRequest := 7, waitingRequests := [(7, Waiting (UserFunc 0) 7)]\<rparr>)
       [''{"error":"property not found","data":null,"request_id":7}''] =
       (Returns,
        (NewConnection ''/tmp/mpv_socket'')\<lparr>client := Some (Conn 0), lastRequest := 7\<rparr>,
        [Lock, Unlock,
         CallRequest (Waiting (UserFunc 0) 7)
           \<lparr>Status = ''property not found'', CommandResult.Data = VNil, CommandResult.ID = 7\<rparr>,
         CallCompletion (UserFunc 0) VNil (Some (Errorf ''mpv error: property not found'')),
         Lock, Unlock])\<close>
proof -
  have m: "map_of (waitingRequests ((NewConnection ''/tmp/mpv_socket'')
       \<lparr>client := Some (Conn 0), lastRequest := 7, waitingRequests := [(7, Waiting (UserFunc 0) 7)]\<rparr>))
     7 = Some (Waiting (UserFunc 0) 7)"
    by simp
  from result_line_completes_request [OF m] m show ?thesis
    by (simp add: NewConnection_def)
qed

lemma notify_registered:
  "(\<And>k v. (k, v) \<in> set m' \<Longrightarrow> map_of m k = Some v \<and> v \<noteq> None) \<Longrightarrow>
     notify m (map fst m') event = (Returns, listenerCalls m' event)"
proof (induction m')
  case Nil
  then show ?case by simp
next
  case (Cons e m')
  obtain k v where e: "e = (k, v)" by (cases e)
  from Cons.prems [of k v] e obtain l where l: "map_of m k = Some (Some l)" "v = Some l"
    by auto
  have "notify m (map fst m') event = (Returns, listenerCalls m' event)"
    using Cons.prems by (intro Cons.IH) auto
  with e l show ?case by simp
qed

lemma count_listenerCalls:
  "distinct (map fst m) \<Longrightarrow> map_of m k = Some (Some l) \<Longrightarrow>
     count_list (listenerCalls m event) (CallListener k l event) = 1"
proof (induction m event rule: listenerCalls.induct)
  case (1 event)
  then show ?case by simp
next
  case (2 k' l' m event)
  have absent: "k' \<notin> fst ` set m \<Longrightarrow>
      count_list (listenerCalls m event) (CallListener k' l'' event) = 0" for l''
    by (induction m event rule: listenerCalls.induct) (auto simp: image_iff)
  from 2 show ?case
    by (auto simp: absent dest: map_of_SomeD split: if_splits)
next
  case (3 k' m event)
  then show ?case by (auto split: if_splits)
qed

text \<open>
  C4. On the line \<^verbatim>\<open>{"event":"pause"}\<close> the reader loop calls every registered
  listener exactly once, each with the event whose \<^verbatim>\<open>Name\<close> is ``pause'' and whose
  other fields are zero, and does nothing else. The registry is a Go map (one entry per
  key) holding listeners, that is, no \<^verbatim>\<open>nil\<close> function.
\<close>

theorem pause_reaches_every_listener:
  \<open>distinct (map fst (eventListeners c)) \<Longrightarrow> None \<notin> snd ` set (eventListeners c) \<Longrightarrow>
     listenLoop c [''{"event":"pause"}''] =
       (Returns, c,
        [Lock]
        @ listenerCalls (eventListeners c)
            \<lparr>Name = ''pause'', Reason = [], Prefix = [], Level = [], Text = [],
             Event.ID = 0, Event.Data = VNil, Error = []\<rparr>
        @ [Unlock])
     \<and> (\<forall>k l. map_of (eventListeners c) k = Some (Some l) \<longrightarrow>
           count_list (snd (snd (listenLoop c [''{"event":"pause"}''])))
             (CallListener k l
                \<lparr>Name = ''pause'', Reason = [], Prefix = [], Level = [], Text = [],
                 Event.ID = 0, Event.Data = VNil, Error = []\<rparr>) = 1)\<close>
proof -
  assume d: "distinct (map fst (eventListeners c))" and n: "None \<notin> snd ` set (eventListeners c)"
  let ?ev = "\<lparr>Name = ''pause'', Reason = [], Prefix = [], Level = [], Text = [],
             Event.ID = 0, Event.Data = VNil, Error = []\<rparr>"
  have "notify (eventListeners c) (map fst (eventListeners c)) ?ev
          = (Returns, listenerCalls (eventListeners c) ?ev)"
  proof (rule notify_registered)
    fix k v assume kv: "(k, v) \<in> set (eventListeners c)"
    from d kv have "map_of (eventListeners c) k = Some v" by (rule map_of_is_SomeI)
    moreover from n kv have "v \<noteq> None" by force
    ultimately show "map_of (eventListeners c) k = Some v \<and> v \<noteq> None" by simp
  qed
  then have run: \<open>listenLoop c [''{"event":"pause"}''] =
       (Returns, c, [Lock] @ listenerCalls (eventListeners c) ?ev @ [Unlock])\<close>
    by (simp add: checkEvent_def checkResult_def lookupRequest_def unmarshalEvent_pause
        unmarshalCommandResult_pause zeroEvent_def zeroCommandResult_def)
  show ?thesis
    unfolding run using d by (simp add: count_listenerCalls)
qed

theorem pause_reaches_every_listener_witness:
  \<open>distinct (map fst (eventListeners ((NewConnection ''/tmp/mpv_socket'')
       \<lparr>client := Some (Conn 0), lastListener := 2,
         eventListeners := [(1, Some (Listener 0)), (2, Some (Listener 1))]\<rparr>)))
   \<and> None \<notin> snd ` set (eventListeners ((NewConnection ''/tmp/mpv_socket'')
       \<lparr>client := Some (Conn 0), lastListener := 2,
         eventListeners := [(1, Some (Listener 0)), (2, Some (Listener 1))]\<rparr>))
   \<and> listenLoop ((NewConnection ''/tmp/mpv_socket'')
       \<lparr>client := Some (Conn 0), lastListener := 2,
         eventListeners := [(1, Some (Listener 0)), (2, Some (Listener 1))]\<rparr>)
       [''{"event":"pause"}''] =
       (Returns,
        (NewConnection ''/tmp/mpv_socket'')
          \<lparr>client := Some (Conn 0), lastListener := 2,
            eventListeners := [(1, Some (Listener 0)), (2, Some (Listener 1))]\<rparr>,
        [Lock,
         CallListener 1 (Listener 0)
           \<lparr>Name = ''pause'', Reason = [], Prefix = [], Level = [], Text = [],
            Event.ID = 0, Event.Data = VNil, Error = []\<rparr>,
         CallListener 2 (Listener 1)
           \<lparr>Name = ''pause'', Reason = [], Prefix = [], Level = [], Text = [],
            Event.ID = 0, Event.Data = VNil, Error = []\<rparr>,
         Unlock])
   \<and> count_list (snd (snd (listenLoop ((NewConnection ''/tmp/mpv_socket'')
          \<lparr>client := Some (Conn 0), lastListener := 2,
            eventListeners := [(1, Some (Listener 0)), (2, Some (Listener 1))]\<rparr>)
          [''{"event":"pause"}''])))
        (CallListener 2 (Listener 1)
           \<lparr>Name = ''pause'', Reason = [], Prefix = [], Level = [], Text = [],
            Event.ID = 0, Event.Data = VNil, Error = []\<rparr>) = 1\<close>
proof -
  let ?c = "(NewConnection ''/tmp/mpv_socket'')
       \<lparr>client := Some (Conn 0), lastListener := 2,
         eventListeners := [(1, Some (Listener 0)), (2, Some (Listener 1))]\<rparr>"
  have d: "distinct (map fst (eventListeners ?c))" by simp
  have n: "None \<notin> snd ` set (eventListeners ?c)" by simp
  have m: "map_of (eventListeners ?c) 2 = Some (Some (Listener 1))" by simp
  from pause_reaches_every_listener [OF d n] d n m show ?thesis
    by (simp del: listenLoop.simps)
qed

lemma checkResult_callbacks_unlocked: "callbacksUnlocked False (snd (checkResult c data))"
proof (cases "lookupRequest c data")
  case (Pair found acts)
  then have a: "acts = [] \<or> acts = [Lock, Unlock]"
    by (auto simp: lookupRequest_def split: option.splits if_splits)
  show ?thesis
  proof (cases found)
    case None
    with Pair a show ?thesis by (auto simp: checkResult_def)
  next
    case (Some qr)
    obtain q r where "qr = (q, r)" by (cases qr)
    with Pair Some a show ?thesis
      by (cases q) (auto simp: checkResult_def deleteRequest_def)
  qed
qed

lemma checkEvent_callbacks_locked:
  "list_ex isCallback (snd (checkEvent c data)) \<Longrightarrow>
     \<not> callbacksUnlocked False (snd (checkEvent c data))"
proof -
  assume called: "list_ex isCallback (snd (checkEvent c data))"
  have first: "\<not> callbacksUnlocked True (acts @ rest)"
    if "list_all isCallback acts" "acts \<noteq> []" for acts rest
    using that by (cases acts) (auto elim: isCallback.elims)
  have all: "list_all isCallback acts" if "notify m ks event = (out, acts)" for m ks event out acts
    using that
    by (induction m ks event arbitrary: out acts rule: notify.induct)
       (auto split: option.splits prod.splits)
  from called obtain event out acts where
    n: "notify (eventListeners c) (map fst (eventListeners c)) event = (out, acts)"
    and a: "snd (checkEvent c data) = [Lock] @ acts @ (if out = Returns then [Unlock] else [])"
    by (auto simp: checkEvent_def split: unmarshalled.splits if_splits prod.splits)
  from called a have "acts \<noteq> []" by (auto split: if_splits)
  with all [OF n] have "\<not> callbacksUnlocked True (acts @ (if out = Returns then [Unlock] else []))"
    by (rule first)
  with a show ?thesis by simp
qed

text \<open>
  C9 (the code departs from the specification). By the specification event dispatch and
  result dispatch both release the mutex before any callback runs. \<^verbatim>\<open>checkResult\<close> does
  (\<open>checkResult_callbacks_unlocked\<close>). \<^verbatim>\<open>checkEvent\<close> does not: it locks, calls
  the listeners inside the \<^verbatim>\<open>range\<close> loop, and unlocks after the loop, so every
  listener it calls runs under the mutex (\<open>checkEvent_callbacks_locked\<close>). With one
  listener registered on an open session, the line \<^verbatim>\<open>{"event":"pause"}\<close> gives the
  actions lock, call, unlock.
\<close>

theorem checkEvent_calls_listener_under_lock:
  \<open>checkEvent (fst (snd (ListenForEvents (conn (session ''/tmp/mpv_socket'' (Conn 0)))
                            (Some (Listener 0)))))
       ''{"event":"pause"}'' =
     (Returns,
      [Lock,
       CallListener 1 (Listener 0)
         \<lparr>Name = ''pause'', Reason = [], Prefix = [], Level = [], Text = [],
          Event.ID = 0, Event.Data = VNil, Error = []\<rparr>,
       Unlock])
   \<and> \<not> callbacksUnlocked False
         (snd (checkEvent (fst (snd (ListenForEvents (conn (session ''/tmp/mpv_socket'' (Conn 0)))
                                       (Some (Listener 0)))))
                 ''{"event":"pause"}''))\<close>
  by (simp add: checkEvent_def unmarshalEvent_pause zeroEvent_def ListenForEvents_def
      session_def Open_def NewConnection_def)

section \<open>Callbacks under every interleaving\<close>

subsection \<open>Association lists\<close>

lemma filter_update_le:
  "length (filter P (AList.update k v al)) \<le> length (filter P al) + (if P (k, v) then 1 else 0)"
  by (induction al) auto

lemma filter_split_key:
  "distinct (map fst al) \<Longrightarrow> map_of al k = Some q \<Longrightarrow>
     length (filter P al) = length (filter (\<lambda>e. P e \<and> fst e \<noteq> k) al) + (if P (k, q) then 1 else 0)"
proof (induction al)
  case Nil
  then show ?case by simp
next
  case (Cons e al)
  show ?case
  proof (cases "fst e = k")
    case True
    with Cons.prems have e: "e = (k, q)" by (cases e) auto
    from Cons.prems True have "k \<notin> fst ` set al" by auto
    then have "filter (\<lambda>e. P e \<and> fst e \<noteq> k) al = filter P al"
      by (intro filter_cong) (auto simp: image_iff)
    with e show ?thesis by simp
  next
    case False
    with Cons show ?thesis by (cases e) auto
  qed
qed

lemma filter_delete:
  "filter P (AList.delete k al) = filter (\<lambda>e. P e \<and> fst e \<noteq> k) al"
  by (induction al) auto

lemma list_all_delete: "list_all P al \<Longrightarrow> list_all P (AList.delete k al)"
  by (induction al) auto

lemma list_all_update:
  "list_all P al \<Longrightarrow> P (k, v) \<Longrightarrow> list_all P (AList.update k v al)"
  by (induction al) auto

subsection \<open>Actions of a step\<close>

lemma answered_append: "answered a \<Longrightarrow> answered b \<Longrightarrow> answered (a @ b)"
  by (induction a rule: answered.induct) auto

lemma notify_actions:
  "notify m ks event = (out, acts) \<Longrightarrow> a \<in> set acts \<Longrightarrow>
     \<exists>k l. a = CallListener k l event \<and> map_of m k = Some (Some l)"
  by (induction m ks event arbitrary: out acts rule: notify.induct)
     (auto split: option.splits prod.splits)

lemma checkEvent_actions:
  "a \<in> set (snd (checkEvent c data)) \<Longrightarrow>
     a = Lock \<or> a = Unlock
     \<or> (\<exists>k l event. a = CallListener k l event \<and> map_of (eventListeners c) k = Some (Some l))"
  by (auto simp: checkEvent_def split: unmarshalled.splits if_splits prod.splits
      dest!: notify_actions)

lemma checkEvent_answered: "answered (snd (checkEvent c data))"
proof -
  have "list_all (\<lambda>a. a = Lock \<or> a = Unlock \<or> (\<exists>k l event. a = CallListener k l event)) acts
        \<Longrightarrow> answered acts" for acts
    by (induction acts rule: answered.induct) auto
  moreover have "list_all (\<lambda>a. a = Lock \<or> a = Unlock \<or> (\<exists>k l event. a = CallListener k l event))
        (snd (checkEvent c data))"
    unfolding list_all_iff using checkEvent_actions by blast
  ultimately show ?thesis .
qed

lemma lookupRequest_found:
  "lookupRequest c data = (Some (request, result), acts) \<Longrightarrow>
     map_of (waitingRequests c) (CommandResult.ID result) = Some request \<and> acts = [Lock, Unlock]"
  by (auto simp: lookupRequest_def split: option.splits if_splits)

lemma lookupRequest_actions:
  "snd (lookupRequest c data) = [] \<or> snd (lookupRequest c data) = [Lock, Unlock]"
  by (auto simp: lookupRequest_def split: option.splits if_splits)

lemma exec_consistent: "consistent s \<Longrightarrow> consistent (fst (exec st s))"
proof (cases "reader s = Crashed")
  case True
  assume "consistent s"
  with True show ?thesis by (simp add: exec_def)
next
  case False
  assume c: "consistent s"
  show ?thesis
  proof (cases st)
    case (DoListenForEvents onEvent)
    with c False show ?thesis
      by (simp add: exec_def consistent_def ListenForEvents_def Let_def)
  next
    case (DoCancel i)
    with c False show ?thesis
      by (simp add: exec_def consistent_def cancel_def)
  next
    case (DoCallAsync g args io)
    obtain err c' acts where r: "CallAsync (conn s) g args io = (err, c', acts)"
      by (cases "CallAsync (conn s) g args io") auto
    from CallAsync_result [OF r] c have
      "distinct (map fst (waitingRequests c'))"
      "list_all (\<lambda>e. requestID (snd e) = fst e) (waitingRequests c')"
      by (cases g; simp add: consistent_def distinct_update list_all_update)+
    with c False DoCallAsync r show ?thesis
      by (simp add: exec_def consistent_def)
  next
    case (DoSendCommand i args io)
    with c False show ?thesis
      by (auto simp: exec_def consistent_def split: prod.splits dest!: SendCommand_result)
  next
    case (DoClose e)
    with c False show ?thesis
      by (auto simp: exec_def consistent_def split: prod.splits dest!: Close_result)
  next
    case (ReaderLine data)
    with c False show ?thesis
      by (auto simp: exec_def consistent_def split: prod.splits outcome.splits)
  next
    case (ReaderEnd e)
    with c False show ?thesis
      by (auto simp: exec_def consistent_def split: prod.splits dest!: Close_result)
  next
    case ReaderStep
    show ?thesis
    proof (cases "reader s")
      case (AtCheckResult data)
      show ?thesis
      proof (cases "fst (lookupRequest (conn s) data)")
        case None
        with c ReaderStep AtCheckResult show ?thesis
          by (auto simp: exec_def readerStep_def consistent_def split: prod.splits)
      next
        case (Some qr)
        obtain q r where qr: "qr = (q, r)" by (cases qr)
        obtain acts where l: "lookupRequest (conn s) data = (Some (q, r), acts)"
          using Some qr by (cases "lookupRequest (conn s) data") auto
        from lookupRequest_found [OF l]
        have "map_of (waitingRequests (conn s)) (CommandResult.ID r) = Some q" by simp
        then have "(CommandResult.ID r, q) \<in> set (waitingRequests (conn s))"
          by (rule map_of_SomeD)
        with c have "requestID q = CommandResult.ID r"
          by (auto simp: consistent_def list_all_iff)
        with c ReaderStep AtCheckResult l show ?thesis
          by (simp add: exec_def readerStep_def consistent_def)
      qed
    next
      case (AtRequest q r)
      with c ReaderStep show ?thesis
        by (simp add: exec_def readerStep_def consistent_def)
    next
      case (AtDelete i)
      with c ReaderStep show ?thesis
        by (simp add: exec_def readerStep_def consistent_def deleteRequest_def distinct_delete
            list_all_delete)
    qed (use c ReaderStep in \<open>simp_all add: exec_def readerStep_def consistent_def\<close>)
  qed
qed


lemma plain_answered:
  "list_all (\<lambda>a. \<not> isCallback a \<and> (\<forall>q r. a \<noteq> CallRequest q r)) acts \<Longrightarrow> answered acts"
  by (induction acts rule: answered.induct) auto

lemma plain_no_request:
  "list_all (\<lambda>a. \<not> isCallback a \<and> (\<forall>q r. a \<noteq> CallRequest q r)) acts \<Longrightarrow>
     filter (requested W) acts = []"
  by (induction acts) (auto elim: requested.elims)

lemma checkEvent_no_request: "filter (requested W) (snd (checkEvent c data)) = []"
  by (auto simp: filter_empty_conv dest!: checkEvent_actions)

lemma exec_actions:
  "consistent s \<Longrightarrow>
     (\<exists>q r. reader s = AtRequest q r \<and> st = ReaderStep
            \<and> snd (exec st s) = [CallRequest q r] @ callCompletion q r)
     \<or> (\<exists>data. reader s = AtScan \<and> st = ReaderLine data \<and> snd (exec st s) = snd (checkEvent (conn s) data))
     \<or> list_all (\<lambda>a. \<not> isCallback a \<and> (\<forall>q r. a \<noteq> CallRequest q r)) (snd (exec st s))"
proof (cases "reader s = Crashed")
  case True
  then show ?thesis by (simp add: exec_def)
next
  case False
  show ?thesis
  proof (cases st)
    case (DoListenForEvents onEvent)
    with False show ?thesis by (simp add: exec_def ListenForEvents_def Let_def)
  next
    case (DoCancel i)
    with False show ?thesis by (simp add: exec_def cancel_def)
  next
    case (DoCallAsync g args io)
    obtain err c' acts where r: "CallAsync (conn s) g args io = (err, c', acts)"
      by (cases "CallAsync (conn s) g args io") auto
    from CallAsync_result [OF r]
    have "list_all (\<lambda>a. \<not> isCallback a \<and> (\<forall>q r. a \<noteq> CallRequest q r)) acts"
      by (auto simp: list_all_iff)
    with False DoCallAsync r show ?thesis by (simp add: exec_def)
  next
    case (DoSendCommand i args io)
    obtain err c' acts where r: "SendCommand (conn s) i args io = (err, c', acts)"
      by (cases "SendCommand (conn s) i args io") auto
    from SendCommand_result [OF r]
    have "list_all (\<lambda>a. \<not> isCallback a \<and> (\<forall>q r. a \<noteq> CallRequest q r)) acts"
      by (auto simp: list_all_iff)
    with False DoSendCommand r show ?thesis by (simp add: exec_def)
  next
    case (DoClose e)
    obtain err c' acts where r: "Close (conn s) e = (err, c', acts)"
      by (cases "Close (conn s) e") auto
    from Close_result [OF r]
    have "list_all (\<lambda>a. \<not> isCallback a \<and> (\<forall>q r. a \<noteq> CallRequest q r)) acts"
      by (auto simp: list_all_iff)
    with False DoClose r show ?thesis by (simp add: exec_def)
  next
    case (ReaderLine data)
    with False show ?thesis
      by (cases "reader s = AtScan")
         (auto simp: exec_def split: prod.splits outcome.splits)
  next
    case (ReaderEnd e)
    obtain err c' acts where r: "Close (conn s) e = (err, c', acts)"
      by (cases "Close (conn s) e") auto
    from Close_result [OF r]
    have "list_all (\<lambda>a. \<not> isCallback a \<and> (\<forall>q r. a \<noteq> CallRequest q r)) acts"
      by (auto simp: list_all_iff)
    with False ReaderEnd r show ?thesis by (simp add: exec_def)
  next
    case ReaderStep
    show ?thesis
    proof (cases "reader s")
      case (AtCheckResult data)
      from lookupRequest_actions [of "conn s" data]
      have "list_all (\<lambda>a. \<not> isCallback a \<and> (\<forall>q r. a \<noteq> CallRequest q r))
              (snd (lookupRequest (conn s) data))"
        by auto
      with ReaderStep AtCheckResult show ?thesis
        by (auto simp: exec_def readerStep_def split: prod.splits option.splits)
    next
      case (AtRequest q r)
      with ReaderStep show ?thesis by (simp add: exec_def readerStep_def)
    next
      case (AtDelete i)
      with ReaderStep show ?thesis by (simp add: exec_def readerStep_def deleteRequest_def)
    qed (use ReaderStep in \<open>simp_all add: exec_def readerStep_def\<close>)
  qed
qed

lemma exec_answered: "consistent s \<Longrightarrow> answered (snd (exec st s))"
proof -
  assume c: "consistent s"
  from exec_actions [OF c, of st] show ?thesis
  proof (elim disjE exE conjE)
    fix q r
    assume rd: "reader s = AtRequest q r" and a: "snd (exec st s) = [CallRequest q r] @ callCompletion q r"
    from c rd have "requestID q = CommandResult.ID r" by (simp add: consistent_def)
    with a show ?thesis by (cases q) simp
  next
    fix data
    assume "snd (exec st s) = snd (checkEvent (conn s) data)"
    then show ?thesis by (simp add: checkEvent_answered)
  next
    assume "list_all (\<lambda>a. \<not> isCallback a \<and> (\<forall>q r. a \<noteq> CallRequest q r)) (snd (exec st s))"
    then show ?thesis by (rule plain_answered)
  qed
qed


lemma exec_pending:
  "consistent s \<Longrightarrow>
     length (filter (requested W) (snd (exec st s))) + pending W (fst (exec st s))
       \<le> length (filter W (registering st s)) + pending W s"
proof (cases "reader s = Crashed")
  case True
  then show ?thesis by (simp add: exec_def)
next
  case False
  assume c: "consistent s"
  show ?thesis
  proof (cases st)
    case (DoListenForEvents onEvent)
    with False show ?thesis by (simp add: exec_def ListenForEvents_def Let_def pending_def)
  next
    case (DoCancel i)
    with False show ?thesis by (simp add: exec_def cancel_def pending_def)
  next
    case (DoCallAsync g args io)
    obtain err c' acts where r: "CallAsync (conn s) g args io = (err, c', acts)"
      by (cases "CallAsync (conn s) g args io") auto
    note res = CallAsync_result [OF r]
    from res have quiet: "filter (requested W) acts = []"
      by (intro plain_no_request) (auto simp: list_all_iff)
    show ?thesis
    proof (cases g)
      case None
      with res have "waitingRequests c' = waitingRequests (conn s)" by simp
      with False DoCallAsync r quiet show ?thesis by (simp add: exec_def pending_def)
    next
      case (Some h)
      let ?k = "lastRequest (conn s) + 1"
      let ?P = "\<lambda>e. W (snd e) \<and> Some (fst e) \<noteq> slot (reader s)"
      from res Some have "waitingRequests c' = AList.update ?k (Waiting h ?k) (waitingRequests (conn s))"
        by simp
      moreover have "length (filter ?P (AList.update ?k (Waiting h ?k) (waitingRequests (conn s))))
          \<le> length (filter ?P (waitingRequests (conn s))) + (if ?P (?k, Waiting h ?k) then 1 else 0)"
        by (rule filter_update_le)
      ultimately show ?thesis
        using False DoCallAsync r quiet Some by (auto simp: exec_def pending_def split: if_splits)
    qed
  next
    case (DoSendCommand i args io)
    obtain err c' acts where r: "SendCommand (conn s) i args io = (err, c', acts)"
      by (cases "SendCommand (conn s) i args io") auto
    from SendCommand_result [OF r] have "c' = conn s"
      and "list_all (\<lambda>a. \<not> isCallback a \<and> (\<forall>q r. a \<noteq> CallRequest q r)) acts"
      by (auto simp: list_all_iff)
    then have "filter (requested W) acts = []" "c' = conn s"
      by (simp_all add: plain_no_request)
    with False DoSendCommand r show ?thesis by (simp add: exec_def pending_def)
  next
    case (DoClose e)
    obtain err c' acts where r: "Close (conn s) e = (err, c', acts)"
      by (cases "Close (conn s) e") auto
    from Close_result [OF r] have "waitingRequests c' = waitingRequests (conn s)"
      and "list_all (\<lambda>a. \<not> isCallback a \<and> (\<forall>q r. a \<noteq> CallRequest q r)) acts"
      by (auto simp: list_all_iff)
    then have "filter (requested W) acts = []" "waitingRequests c' = waitingRequests (conn s)"
      by (simp_all add: plain_no_request)
    with False DoClose r show ?thesis by (simp add: exec_def pending_def)
  next
    case (ReaderLine data)
    show ?thesis
    proof (cases "reader s = AtScan")
      case True
      obtain out acts where e: "checkEvent (conn s) data = (out, acts)"
        by (cases "checkEvent (conn s) data")
      from checkEvent_no_request [of W "conn s" data] e
      have "filter (requested W) acts = []" by simp
      with True ReaderLine e show ?thesis
        by (cases out) (simp_all add: exec_def pending_def)
    next
      case False
      with ReaderLine show ?thesis by (simp add: exec_def)
    qed
  next
    case (ReaderEnd e)
    show ?thesis
    proof (cases "reader s = AtScan")
      case True
      obtain err c' acts where r: "Close (conn s) e = (err, c', acts)"
        by (cases "Close (conn s) e") auto
      from Close_result [OF r] have "waitingRequests c' = waitingRequests (conn s)"
        and "list_all (\<lambda>a. \<not> isCallback a \<and> (\<forall>q r. a \<noteq> CallRequest q r)) acts"
        by (auto simp: list_all_iff)
      then have "filter (requested W) acts = []" "waitingRequests c' = waitingRequests (conn s)"
        by (simp_all add: plain_no_request)
      with True ReaderEnd r show ?thesis by (simp add: exec_def pending_def)
    next
      case False
      with ReaderEnd show ?thesis by (simp add: exec_def)
    qed
  next
    case ReaderStep
    show ?thesis
    proof (cases "reader s")
      case (AtCheckResult data)
      show ?thesis
      proof (cases "fst (lookupRequest (conn s) data)")
        case None
        from lookupRequest_actions [of "conn s" data]
        have "filter (requested W) (snd (lookupRequest (conn s) data)) = []" by auto
        with None ReaderStep AtCheckResult show ?thesis
          by (auto simp: exec_def readerStep_def pending_def split: prod.splits)
      next
        case (Some qr)
        obtain q r where qr: "qr = (q, r)" by (cases qr)
        obtain acts where l: "lookupRequest (conn s) data = (Some (q, r), acts)"
          using Some qr by (cases "lookupRequest (conn s) data") auto
        from lookupRequest_found [OF l]
        have m: "map_of (waitingRequests (conn s)) (CommandResult.ID r) = Some q"
          and a: "acts = [Lock, Unlock]" by simp_all
        from m have "(CommandResult.ID r, q) \<in> set (waitingRequests (conn s))"
          by (rule map_of_SomeD)
        with c have i: "requestID q = CommandResult.ID r"
          by (auto simp: consistent_def list_all_iff)
        from c have d: "distinct (map fst (waitingRequests (conn s)))"
          by (simp add: consistent_def)
        have "length (filter (\<lambda>e. W (snd e)) (waitingRequests (conn s)))
              = length (filter (\<lambda>e. W (snd e) \<and> fst e \<noteq> CommandResult.ID r) (waitingRequests (conn s)))
                + (if W (snd (CommandResult.ID r, q)) then 1 else 0)"
          using d m by (rule filter_split_key)
        with ReaderStep AtCheckResult l a i show ?thesis
          by (simp add: exec_def readerStep_def pending_def)
      qed
    next
      case (AtRequest q r)
      obtain g i where q: "q = Waiting g i" by (cases q)
      with ReaderStep AtRequest show ?thesis
        by (simp add: exec_def readerStep_def pending_def)
    next
      case (AtDelete i)
      have "filter (\<lambda>e. W (snd e)) (AList.delete i (waitingRequests (conn s)))
            = filter (\<lambda>e. W (snd e) \<and> fst e \<noteq> i) (waitingRequests (conn s))"
        by (rule filter_delete)
      with ReaderStep AtDelete show ?thesis
        by (simp add: exec_def readerStep_def pending_def deleteRequest_def)
    qed (use ReaderStep in \<open>simp_all add: exec_def readerStep_def\<close>)
  qed
qed

lemma fst_run_Cons: "fst (run (st # rest) s) = fst (run rest (fst (exec st s)))"
  by (simp add: split_beta)

lemma snd_run_Cons: "snd (run (st # rest) s) = snd (exec st s) @ snd (run rest (fst (exec st s)))"
  by (simp add: split_beta)

lemma run_consistent: "consistent s \<Longrightarrow> consistent (fst (run sched s))"
proof (induction sched arbitrary: s)
  case Nil
  then show ?case by simp
next
  case (Cons st rest)
  from Cons.prems have "consistent (fst (exec st s))" by (rule exec_consistent)
  then have "consistent (fst (run rest (fst (exec st s))))" by (rule Cons.IH)
  then show ?case by (simp only: fst_run_Cons)
qed

lemma run_answered: "consistent s \<Longrightarrow> answered (snd (run sched s))"
proof (induction sched arbitrary: s)
  case Nil
  then show ?case by simp
next
  case (Cons st rest)
  from Cons.prems have "answered (snd (exec st s))" by (rule exec_answered)
  moreover from Cons.prems have "consistent (fst (exec st s))" by (rule exec_consistent)
  then have "answered (snd (run rest (fst (exec st s))))" by (rule Cons.IH)
  ultimately show ?case by (simp only: snd_run_Cons answered_append)
qed

lemma run_pending:
  "consistent s \<Longrightarrow>
     length (filter (requested W) (snd (run sched s))) + pending W (fst (run sched s))
       \<le> length (filter W (registered sched s)) + pending W s"
proof (induction sched arbitrary: s)
  case Nil
  then show ?case by simp
next
  case (Cons st rest)
  let ?s' = "fst (exec st s)"
  from Cons.prems have step: "length (filter (requested W) (snd (exec st s))) + pending W ?s'
       \<le> length (filter W (registering st s)) + pending W s"
    by (rule exec_pending)
  from Cons.prems have "consistent ?s'" by (rule exec_consistent)
  then have "length (filter (requested W) (snd (run rest ?s'))) + pending W (fst (run rest ?s'))
       \<le> length (filter W (registered rest ?s')) + pending W ?s'"
    by (rule Cons.IH)
  with step show ?case
    by (simp add: split_beta)
qed

lemma registered_registers:
  "length (filter (waits f) (registered sched s)) \<le> length (filter (registers f) sched)"
proof (induction sched arbitrary: s)
  case Nil
  then show ?case by simp
next
  case (Cons st rest)
  have "length (filter (waits f) (registering st s)) \<le> (if registers f st then 1 else 0)"
    by (cases "(st, s)" rule: registering.cases) auto
  with Cons.IH [of "fst (exec st s)"] show ?case by (simp split: if_splits)
qed

lemma answered_completes:
  "answered acts \<Longrightarrow>
     length (filter (completes f) acts) = length (filter (requested (waits f)) acts)"
proof (induction acts rule: answered.induct)
  case (2 request result g v err acts)
  then show ?case by (cases request) (auto split: if_splits)
qed auto

lemma session_consistent: "consistent (session name nc)"
  by (simp add: consistent_def session_def Open_def NewConnection_def)

lemma session_pending: "pending W (session name nc) = 0"
  by (simp add: pending_def session_def Open_def NewConnection_def)

text \<open>
  C1. Take any schedule of caller steps and reader steps on a session; \<^verbatim>\<open>CallAsync\<close>
  calls and result lines may come in any number and order, and callers may run between
  the reader's lookup, its call of the request and the removal. Then:

  \<^item> a request \<open>Waiting f i\<close> (the callback \<open>f\<close> stored by a \<^verbatim>\<open>CallAsync\<close> that
    allocated id \<open>i\<close>) is called at most once per registration: the calls made so far
    and the registrations still waiting to be called together never exceed the
    registrations; counted by callback, \<open>f\<close> is called at most once for each
    \<^verbatim>\<open>CallAsync\<close> that passed it;
  \<^item> every call of a callback is made by a request that was called with a result whose
    \<^verbatim>\<open>request_id\<close> is the id the request captured when \<^verbatim>\<open>CallAsync\<close> stored it
    (\<open>answered\<close>), whatever the order of the results;
  \<^item> when the callback has returned (the reader is at \<open>AtDelete j\<close>), the reader's
    next step removes the entry under that id.
\<close>

theorem completion_called_at_most_once:
  "run sched (session name nc) = (s, acts) \<Longrightarrow>
     length (filter (requested ((=) (Waiting f i))) acts) + pending ((=) (Waiting f i)) s
       \<le> count_list (registered sched (session name nc)) (Waiting f i)
     \<and> length (filter (completes f) acts) \<le> length (filter (registers f) sched)
     \<and> answered acts
     \<and> (reader s = AtDelete j \<longrightarrow>
          map_of (waitingRequests (conn (fst (exec ReaderStep s)))) j = None)"
proof (intro conjI impI)
  assume r: "run sched (session name nc) = (s, acts)"
  have p: "length (filter (requested W) acts) + pending W s
      \<le> length (filter W (registered sched (session name nc)))" for W
    using run_pending [OF session_consistent, of W sched name nc] r
    by (simp add: session_pending)
  from p [of "(=) (Waiting f i)"]
  show "length (filter (requested ((=) (Waiting f i))) acts) + pending ((=) (Waiting f i)) s
       \<le> count_list (registered sched (session name nc)) (Waiting f i)"
    by (simp add: count_list_eq_length_filter)
  show a: "answered acts"
    using run_answered [OF session_consistent, of sched name nc] r by simp
  from p [of "waits f"] registered_registers [of f sched "session name nc"] answered_completes [OF a, of f]
  show "length (filter (completes f) acts) \<le> length (filter (registers f) sched)"
    by simp
next
  assume "reader s = AtDelete j"
  then show "map_of (waitingRequests (conn (fst (exec ReaderStep s)))) j = None"
    by (simp add: exec_def readerStep_def deleteRequest_def delete_conv')
qed

theorem completion_called_at_most_once_witness:
  \<open>run [DoCallAsync (Some (UserFunc 1)) [VString ''get_property'', VString ''volume'']
            \<lparr>json_Marshal = (\<lambda>m. Inr ''{"command":["get_property","volume"],"request_id":1}''),
             Write_data = None, Write_newline = None\<rparr>,
          ReaderLine ''{"error":"success","data":3.5,"request_id":1}'', ReaderStep, ReaderStep]
       (session ''/tmp/mpv_socket'' (Conn 0)) =
     (\<lparr>conn = (NewConnection ''/tmp/mpv_socket'')
          \<lparr>client := Some (Conn 0), lastRequest := 1,
            waitingRequests := [(1, Waiting (UserFunc 1) 1)]\<rparr>,
       reader = AtDelete 1\<rparr>,
      [Lock, Unlock,
       ConnWrite (Conn 0) ''{"command":["get_property","volume"],"request_id":1}'',
       ConnWrite (Conn 0) [CHR 0x0A],
       Lock, Unlock,
       CallRequest (Waiting (UserFunc 1) 1)
         \<lparr>Status = ''success'', CommandResult.Data = VFloat64 (7 / 2), CommandResult.ID = 1\<rparr>,
       CallCompletion (UserFunc 1) (VFloat64 (7 / 2)) None])
   \<and> length (filter (requested ((=) (Waiting (UserFunc 1) 1)))
        [Lock, Unlock,
         ConnWrite (Conn 0) ''{"command":["get_property","volume"],"request_id":1}'',
         ConnWrite (Conn 0) [CHR 0x0A],
         Lock, Unlock,
         CallRequest (Waiting (UserFunc 1) 1)
           \<lparr>Status = ''success'', CommandResult.Data = VFloat64 (7 / 2), CommandResult.ID = 1\<rparr>,
         CallCompletion (UserFunc 1) (VFloat64 (7 / 2)) None])
       + pending ((=) (Waiting (UserFunc 1) 1))
           \<lparr>conn = (NewConnection ''/tmp/mpv_socket'')
              \<lparr>client := Some (Conn 0), lastRequest := 1,
                waitingRequests := [(1, Waiting (UserFunc 1) 1)]\<rparr>,
            reader = AtDelete 1\<rparr>
       \<le> count_list
           (registered
              [DoCallAsync (Some (UserFunc 1)) [VString ''get_property'', VString ''volume'']
                 \<lparr>json_Marshal = (\<lambda>m. Inr ''{"command":["get_property","volume"],"request_id":1}''),
                  Write_data = None, Write_newline = None\<rparr>,
               ReaderLine ''{"error":"success","data":3.5,"request_id":1}'', ReaderStep, ReaderStep]
              (session ''/tmp/mpv_socket'' (Conn 0)))
           (Waiting (UserFunc 1) 1)
   \<and> answered
        [Lock, Unlock,
         ConnWrite (Conn 0) ''{"command":["get_property","volume"],"request_id":1}'',
         ConnWrite (Conn 0) [CHR 0x0A],
         Lock, Unlock,
         CallRequest (Waiting (UserFunc 1) 1)
           \<lparr>Status = ''success'', CommandResult.Data = VFloat64 (7 / 2), CommandResult.ID = 1\<rparr>,
         CallCompletion (UserFunc 1) (VFloat64 (7 / 2)) None]
   \<and> map_of (waitingRequests (conn (fst (exec ReaderStep
        \<lparr>conn = (NewConnection ''/tmp/mpv_socket'')
           \<lparr>client := Some (Conn 0), lastRequest := 1,
             waitingRequests := [(1, Waiting (UserFunc 1) 1)]\<rparr>,
         reader = AtDelete 1\<rparr>)))) 1 = None\<close>
proof -
  have r: \<open>run [DoCallAsync (Some (UserFunc 1)) [VString ''get_property'', VString ''volume'']
            \<lparr>json_Marshal = (\<lambda>m. Inr ''{"command":["get_property","volume"],"request_id":1}''),
             Write_data = None, Write_newline = None\<rparr>,
          ReaderLine ''{"error":"success","data":3.5,"request_id":1}'', ReaderStep, ReaderStep]
       (session ''/tmp/mpv_socket'' (Conn 0)) =
     (\<lparr>conn = (NewConnection ''/tmp/mpv_socket'')
          \<lparr>client := Some (Conn 0), lastRequest := 1,
            waitingRequests := [(1, Waiting (UserFunc 1) 1)]\<rparr>,
       reader = AtDelete 1\<rparr>,
      [Lock, Unlock,
       ConnWrite (Conn 0) ''{"command":["get_property","volume"],"request_id":1}'',
       ConnWrite (Conn 0) [CHR 0x0A],
       Lock, Unlock,
       CallRequest (Waiting (UserFunc 1) 1)
         \<lparr>Status = ''success'', CommandResult.Data = VFloat64 (7 / 2), CommandResult.ID = 1\<rparr>,
       CallCompletion (UserFunc 1) (VFloat64 (7 / 2)) None])\<close>
    by (simp add: exec_def readerStep_def CallAsync_def SendCommand_def checkEvent_def
        lookupRequest_def session_def Open_def NewConnection_def zeroEvent_def
        unmarshalEvent_answer1 unmarshalCommandResult_answer1)
  from completion_called_at_most_once [OF r, of "UserFunc 1" 1 1] r show ?thesis
    by (simp del: run.simps registered.simps)
qed

subsection \<open>Listeners\<close>

lemma exec_eventListeners:
  "eventListeners (conn (fst (exec st s))) =
     (if reader s = Crashed then eventListeners (conn s)
      else case st of
        DoListenForEvents onEvent \<Rightarrow>
          AList.update (lastListener (conn s) + 1) onEvent (eventListeners (conn s))
      | DoCancel i \<Rightarrow> AList.delete i (eventListeners (conn s))
      | _ \<Rightarrow> eventListeners (conn s))"
proof (cases "reader s = Crashed")
  case True
  then show ?thesis by (simp add: exec_def)
next
  case False
  show ?thesis
  proof (cases st)
    case (DoCallAsync g args io)
    obtain err c' acts where r: "CallAsync (conn s) g args io = (err, c', acts)"
      by (cases "CallAsync (conn s) g args io") auto
    from CallAsync_result [OF r] have "eventListeners c' = eventListeners (conn s)"
      by (cases g) simp_all
    with False DoCallAsync r show ?thesis by (simp add: exec_def)
  next
    case (DoSendCommand i args io)
    obtain err c' acts where r: "SendCommand (conn s) i args io = (err, c', acts)"
      by (cases "SendCommand (conn s) i args io") auto
    from SendCommand_result [OF r] False DoSendCommand r show ?thesis by (simp add: exec_def)
  next
    case (DoClose e)
    obtain err c' acts where r: "Close (conn s) e = (err, c', acts)"
      by (cases "Close (conn s) e") auto
    from Close_result [OF r] False DoClose r show ?thesis by (simp add: exec_def)
  next
    case (ReaderLine data)
    with False show ?thesis by (auto simp: exec_def split: prod.splits outcome.splits)
  next
    case (ReaderEnd e)
    obtain err c' acts where r: "Close (conn s) e = (err, c', acts)"
      by (cases "Close (conn s) e") auto
    from Close_result [OF r] False ReaderEnd r show ?thesis by (simp add: exec_def)
  next
    case ReaderStep
    with False show ?thesis
      by (cases "reader s")
         (auto simp: exec_def readerStep_def deleteRequest_def split: prod.splits option.splits)
  qed (use False in \<open>simp_all add: exec_def ListenForEvents_def cancel_def Let_def\<close>)
qed

lemma exec_keeps_listener_at:
  "\<not> listens l st \<Longrightarrow>
     \<forall>k. map_of (eventListeners (conn s)) k = Some (Some l) \<longrightarrow> k \<in> K \<Longrightarrow>
     \<forall>k. map_of (eventListeners (conn (fst (exec st s)))) k = Some (Some l) \<longrightarrow> k \<in> K"
  by (cases st; cases "reader s = Crashed")
     (auto simp: exec_eventListeners update_conv' delete_conv' split: if_splits elim: listens.elims)

lemma run_keeps_listener_at:
  "\<not> list_ex (listens l) sched \<Longrightarrow>
     \<forall>k. map_of (eventListeners (conn s)) k = Some (Some l) \<longrightarrow> k \<in> K \<Longrightarrow>
     \<forall>k. map_of (eventListeners (conn (fst (run sched s)))) k = Some (Some l) \<longrightarrow> k \<in> K"
proof (induction sched arbitrary: s)
  case Nil
  then show ?case by simp
next
  case (Cons st rest)
  from Cons.prems have "\<not> listens l st" "\<not> list_ex (listens l) rest" by simp_all
  with Cons.prems(2) Cons.IH [of "fst (exec st s)"] exec_keeps_listener_at [of l st s K]
  show ?case by (simp only: fst_run_Cons) blast
qed

lemma exec_not_notified:
  "\<forall>k. map_of (eventListeners (conn s)) k \<noteq> Some (Some l) \<Longrightarrow>
     \<not> list_ex (notifies l) (snd (exec st s))"
proof -
  assume absent: "\<forall>k. map_of (eventListeners (conn s)) k \<noteq> Some (Some l)"
  have plain: "\<not> list_ex (notifies l) acts"
    if "list_all (\<lambda>a. \<not> isCallback a \<and> (\<forall>q r. a \<noteq> CallRequest q r)) acts" for acts
    using that by (induction acts) (auto elim: notifies.elims)
  show ?thesis
  proof (cases "reader s = Crashed")
    case True
    then show ?thesis by (simp add: exec_def)
  next
    case False
    show ?thesis
    proof (cases st)
      case (DoListenForEvents onEvent)
      with False show ?thesis by (simp add: exec_def ListenForEvents_def Let_def)
    next
      case (DoCancel i)
      with False show ?thesis by (simp add: exec_def cancel_def)
    next
      case (DoCallAsync g args io)
      obtain err c' acts where r: "CallAsync (conn s) g args io = (err, c', acts)"
        by (cases "CallAsync (conn s) g args io") auto
      from CallAsync_result [OF r] have "\<not> list_ex (notifies l) acts"
        by (intro plain) (auto simp: list_all_iff)
      with False DoCallAsync r show ?thesis by (simp add: exec_def)
    next
      case (DoSendCommand i args io)
      obtain err c' acts where r: "SendCommand (conn s) i args io = (err, c', acts)"
        by (cases "SendCommand (conn s) i args io") auto
      from SendCommand_result [OF r] have "\<not> list_ex (notifies l) acts"
        by (intro plain) (auto simp: list_all_iff)
      with False DoSendCommand r show ?thesis by (simp add: exec_def)
    next
      case (DoClose e)
      obtain err c' acts where r: "Close (conn s) e = (err, c', acts)"
        by (cases "Close (conn s) e") auto
      from Close_result [OF r] have "\<not> list_ex (notifies l) acts"
        by (intro plain) (auto simp: list_all_iff)
      with False DoClose r show ?thesis by (simp add: exec_def)
    next
      case (ReaderLine data)
      have "\<not> list_ex (notifies l) (snd (checkEvent (conn s) data))"
        using absent by (auto simp: list_ex_iff dest!: checkEvent_actions)
      with False ReaderLine show ?thesis
        by (auto simp: exec_def split: prod.splits outcome.splits)
    next
      case (ReaderEnd e)
      obtain err c' acts where r: "Close (conn s) e = (err, c', acts)"
        by (cases "Close (conn s) e") auto
      from Close_result [OF r] have "\<not> list_ex (notifies l) acts"
        by (intro plain) (auto simp: list_all_iff)
      with False ReaderEnd r show ?thesis by (simp add: exec_def)
    next
      case ReaderStep
      show ?thesis
      proof (cases "reader s")
        case (AtCheckResult data)
        from lookupRequest_actions [of "conn s" data]
        have "\<not> list_ex (notifies l) (snd (lookupRequest (conn s) data))" by auto
        with ReaderStep AtCheckResult show ?thesis
          by (auto simp: exec_def readerStep_def split: prod.splits option.splits)
      next
        case (AtRequest q r)
        with ReaderStep show ?thesis by (cases q) (simp add: exec_def readerStep_def)
      next
        case (AtDelete i)
        with ReaderStep show ?thesis by (simp add: exec_def readerStep_def deleteRequest_def)
      qed (use ReaderStep in \<open>simp_all add: exec_def readerStep_def\<close>)
    qed
  qed
qed

lemma run_not_notified:
  "\<not> list_ex (listens l) sched \<Longrightarrow>
     \<forall>k. map_of (eventListeners (conn s)) k \<noteq> Some (Some l) \<Longrightarrow>
     \<not> list_ex (notifies l) (snd (run sched s))"
proof (induction sched arbitrary: s)
  case Nil
  then show ?case by simp
next
  case (Cons st rest)
  from Cons.prems have n: "\<not> listens l st" "\<not> list_ex (listens l) rest" by simp_all
  from Cons.prems(2) have "\<forall>k. map_of (eventListeners (conn s)) k = Some (Some l) \<longrightarrow> k \<in> {}"
    by simp
  from exec_keeps_listener_at [OF n(1) this]
  have "\<forall>k. map_of (eventListeners (conn (fst (exec st s)))) k \<noteq> Some (Some l)" by simp
  from Cons.IH [OF n(2) this] exec_not_notified [OF Cons.prems(2), of st]
  show ?case by (simp only: snd_run_Cons list_ex_append) simp
qed

lemma run_Crashed: "reader s = Crashed \<Longrightarrow> run sched s = (s, [])"
  by (induction sched) (simp_all add: exec_def)

lemma cancel_absent: "map_of (eventListeners c) i = None \<Longrightarrow> cancel c i = (c, [Lock, Unlock])"
  by (simp add: cancel_def map_of_eq_None_iff)

text \<open>
  C5. A listener \<open>l\<close> that is not yet in the registry is registered with
  \<^verbatim>\<open>ListenForEvents\<close>, which returns the function for id \<open>i\<close>; any steps follow;
  that function is called (\<open>DoCancel i\<close>); any steps follow again. As long as nobody
  registers \<open>l\<close> a second time, no step after the cancellation calls \<open>l\<close>, whatever
  events arrive. And calling the function for an id that has no entry changes nothing.
\<close>

theorem cancel_ends_notifications:
  "(fst (ListenForEvents (conn s) (Some l)) = i
    \<and> (\<forall>k. map_of (eventListeners (conn s)) k \<noteq> Some (Some l))
    \<and> \<not> list_ex (listens l) between \<and> \<not> list_ex (listens l) after
    \<longrightarrow> \<not> list_ex (notifies l)
          (snd (run after (fst (run (DoListenForEvents (Some l) # between @ [DoCancel i]) s)))))
   \<and> (map_of (eventListeners c) i = None \<longrightarrow> cancel c i = (c, [Lock, Unlock]))"
proof (intro conjI impI)
  assume h: "fst (ListenForEvents (conn s) (Some l)) = i
    \<and> (\<forall>k. map_of (eventListeners (conn s)) k \<noteq> Some (Some l))
    \<and> \<not> list_ex (listens l) between \<and> \<not> list_ex (listens l) after"
  then have i: "i = lastListener (conn s) + 1" by (auto simp: ListenForEvents_def Let_def)
  let ?s1 = "fst (exec (DoListenForEvents (Some l)) s)"
  let ?s2 = "fst (run between ?s1)"
  let ?s3 = "fst (exec (DoCancel i) ?s2)"
  have split: "fst (run (DoListenForEvents (Some l) # between @ [DoCancel i]) s) = ?s3"
  proof -
    have "fst (run (xs @ [st]) t) = fst (exec st (fst (run xs t)))" for xs st t
      by (induction xs arbitrary: t) (simp_all add: split_beta)
    then show ?thesis by (simp only: fst_run_Cons)
  qed
  from h i have "\<forall>k. map_of (eventListeners (conn ?s1)) k = Some (Some l) \<longrightarrow> k \<in> {i}"
    by (auto simp: exec_eventListeners update_conv' split: if_splits)
  with h have "\<forall>k. map_of (eventListeners (conn ?s2)) k = Some (Some l) \<longrightarrow> k \<in> {i}"
    by (intro run_keeps_listener_at) simp_all
  then have gone: "reader ?s2 \<noteq> Crashed \<Longrightarrow>
      \<forall>k. map_of (eventListeners (conn ?s3)) k \<noteq> Some (Some l)"
    by (auto simp: exec_eventListeners delete_conv' split: if_splits)
  have "\<not> list_ex (notifies l) (snd (run after ?s3))"
  proof (cases "reader ?s2 = Crashed")
    case True
    then have "reader ?s3 = Crashed" by (simp add: exec_def)
    then show ?thesis by (simp add: run_Crashed)
  next
    case False
    from gone [OF False] h show ?thesis
      by (intro run_not_notified) simp_all
  qed
  with split show "\<not> list_ex (notifies l)
          (snd (run after (fst (run (DoListenForEvents (Some l) # between @ [DoCancel i]) s))))"
    by simp
next
  assume "map_of (eventListeners c) i = None"
  then show "cancel c i = (c, [Lock, Unlock])" by (rule cancel_absent)
qed

theorem cancel_ends_notifications_witness:
  \<open>fst (ListenForEvents (conn (session ''/tmp/mpv_socket'' (Conn 0))) (Some (Listener 0))) = 1
   \<and> (\<forall>k. map_of (eventListeners (conn (session ''/tmp/mpv_socket'' (Conn 0)))) k
          \<noteq> Some (Some (Listener 0)))
   \<and> list_ex (notifies (Listener 0))
        (snd (run (DoListenForEvents (Some (Listener 0))
                   # [ReaderLine ''{"event":"pause"}'', ReaderStep] @ [DoCancel 1])
               (session ''/tmp/mpv_socket'' (Conn 0))))
   \<and> \<not> list_ex (notifies (Listener 0))
        (snd (run [ReaderLine ''{"event":"pause"}'', ReaderStep]
               (fst (run (DoListenForEvents (Some (Listener 0))
                          # [ReaderLine ''{"event":"pause"}'', ReaderStep] @ [DoCancel 1])
                      (session ''/tmp/mpv_socket'' (Conn 0))))))
   \<and> map_of (eventListeners (conn (session ''/tmp/mpv_socket'' (Conn 0)))) 1 = None
   \<and> cancel (conn (session ''/tmp/mpv_socket'' (Conn 0))) 1
       = (conn (session ''/tmp/mpv_socket'' (Conn 0)), [Lock, Unlock])\<close>
proof -
  have i: "fst (ListenForEvents (conn (session ''/tmp/mpv_socket'' (Conn 0))) (Some (Listener 0))) = 1"
    by (simp add: ListenForEvents_def session_def Open_def NewConnection_def)
  have e: "eventListeners (conn (session ''/tmp/mpv_socket'' (Conn 0))) = []"
    by (simp add: session_def Open_def NewConnection_def)
  have before: \<open>list_ex (notifies (Listener 0))
        (snd (run (DoListenForEvents (Some (Listener 0))
                   # [ReaderLine ''{"event":"pause"}'', ReaderStep] @ [DoCancel 1])
               (session ''/tmp/mpv_socket'' (Conn 0))))\<close>
    by (simp add: exec_def readerStep_def ListenForEvents_def cancel_def checkEvent_def
        lookupRequest_def session_def Open_def NewConnection_def zeroEvent_def
        zeroCommandResult_def unmarshalEvent_pause unmarshalCommandResult_pause)
  from cancel_ends_notifications
    [of "session ''/tmp/mpv_socket'' (Conn 0)" "Listener 0" 1
      \<open>[ReaderLine ''{"event":"pause"}'', ReaderStep]\<close>
      \<open>[ReaderLine ''{"event":"pause"}'', ReaderStep]\<close>
      "conn (session ''/tmp/mpv_socket'' (Conn 0))"]
    i e before
  show ?thesis
    by (simp del: run.simps)
qed


end
